theory Spec2Isabelle
  imports Complex_Main "HOL-Library.Sublist" "HOL-Library.Char_ord" "HOL-Library.List_Lexorder"
    "HOL-Library.Multiset"
begin

section \<open>Text and character classes\<close>

text \<open>
  A Python \<open>str\<close> is a sequence of code points.  It is modelled as a \<open>string\<close> whose
  characters are the code points 0..255 (Latin-1), one \<open>char\<close> per code point, so that
  \<open>length\<close> counts what Python's \<open>len\<close> counts.  The character classes below are the
  ones the \<open>re\<close> module uses for \<open>str\<close> patterns, restricted to that range:
  \<open>\d\<close> is the decimal digits (only 0-9 below 256), \<open>\s\<close> is Unicode white space,
  \<open>\w\<close> (used by \<open>\b\<close>) is alphanumeric-or-underscore.

  The amount pattern of the program names one character above that range, the euro sign
  \<open>U+20AC\<close>.  So that texts with amounts in euros are covered, in the text extracted
  from a document the character \<open>0x80\<close> stands for the euro sign, in place of the
  control character \<open>U+0080\<close>.  Both are neither digit nor white space nor word
  character and have no other case, so every class below holds of the one as of the
  other, and the amount pattern is the only place where the program tells them apart.
\<close>

definition is_digit :: "char \<Rightarrow> bool" where
  "is_digit c = (c \<in> set ''0123456789'')"

definition is_upper :: "char \<Rightarrow> bool" where
  "is_upper c = (c \<in> set ''ABCDEFGHIJKLMNOPQRSTUVWXYZ'')"

definition is_lower :: "char \<Rightarrow> bool" where
  "is_lower c = (c \<in> set ''abcdefghijklmnopqrstuvwxyz'')"

definition is_space :: "char \<Rightarrow> bool" where
  "is_space c = (c \<in> set [CHR 0x09, CHR 0x0A, CHR 0x0B, CHR 0x0C, CHR 0x0D,
                          CHR 0x1C, CHR 0x1D, CHR 0x1E, CHR 0x1F, CHR 0x20,
                          CHR 0x85, CHR 0xA0])"

definition is_word :: "char \<Rightarrow> bool" where
  "is_word c = (is_digit c \<or> is_upper c \<or> is_lower c \<or> c = CHR ''_'' \<or>
     c \<in> set [CHR 0xAA, CHR 0xB2, CHR 0xB3, CHR 0xB5, CHR 0xB9, CHR 0xBA,
               CHR 0xBC, CHR 0xBD, CHR 0xBE] \<or>
     (let n = (of_char c :: nat) in
        (0xC0 \<le> n \<and> n \<le> 0xD6) \<or> (0xD8 \<le> n \<and> n \<le> 0xF6) \<or> 0xF8 \<le> n))"

text \<open>Matching one pattern character under \<open>re.IGNORECASE\<close>: an ASCII letter matches
  both of its cases; below 256 no other character folds onto an ASCII letter.\<close>

definition euro :: char where
  "euro = CHR 0x80"

definition ci :: "char \<Rightarrow> char \<Rightarrow> bool" where
  "ci p c = (c = p \<or>
     (p, c) \<in> set (zip ''abcdefghijklmnopqrstuvwxyz'' ''ABCDEFGHIJKLMNOPQRSTUVWXYZ'') \<or>
     (c, p) \<in> set (zip ''abcdefghijklmnopqrstuvwxyz'' ''ABCDEFGHIJKLMNOPQRSTUVWXYZ''))"

section \<open>Regular expressions with backtracking priority\<close>

text \<open>
  The fragment of \<open>re\<close> syntax the program uses: single characters and classes, sequence,
  ordered alternation, greedy bounded repetition of a character class, one capture group,
  the word boundary \<open>\b\<close> and a one-character negative lookbehind.
\<close>

datatype regex =
    Sym "char \<Rightarrow> bool"
  | Eps
  | Seq regex regex
  | Alt regex regex
  | Rep nat "nat option" "char \<Rightarrow> bool"
  | Grp regex
  | WordB
  | NotAfter "char \<Rightarrow> bool"

text \<open>A matcher state: the position reached and the span of group 1, if it has closed.\<close>

type_synonym mstate = "nat \<times> (nat \<times> nat) option"

text \<open>
  \<open>rmatch s r st\<close> lists every state in which \<open>r\<close> can finish when started in \<open>st\<close> on
  the text \<open>s\<close>, in the order in which a backtracking matcher tries them: the left
  alternative before the right one, more repetitions before fewer.  The head of the list
  is the match \<open>re\<close> reports.
\<close>

fun rmatch :: "string \<Rightarrow> regex \<Rightarrow> mstate \<Rightarrow> mstate list" where
  "rmatch s (Sym P) (i, g) = (if i < length s \<and> P (s ! i) then [(Suc i, g)] else [])"
| "rmatch s Eps st = [st]"
| "rmatch s (Seq a b) st = concat (map (rmatch s b) (rmatch s a st))"
| "rmatch s (Alt a b) st = rmatch s a st @ rmatch s b st"
| "rmatch s (Rep m n P) (i, g) =
     (let avail = length (takeWhile P (drop i s));
          k = (case n of None \<Rightarrow> avail | Some b \<Rightarrow> min b avail)
      in map (\<lambda>j. (i + j, g)) (rev [m ..< Suc k]))"
| "rmatch s (Grp r) (i, g) = map (\<lambda>(j, _). (j, Some (i, j))) (rmatch s r (i, g))"
| "rmatch s WordB (i, g) =
     (if (0 < i \<and> is_word (s ! (i - 1))) \<noteq> (i < length s \<and> is_word (s ! i))
      then [(i, g)] else [])"
| "rmatch s (NotAfter P) (i, g) = (if 0 < i \<and> P (s ! (i - 1)) then [] else [(i, g)])"

text \<open>\<open>re.search\<close>: the first start position, left to right, at which the pattern matches;
  \<open>cs\<close> is the text from position \<open>i\<close> on.\<close>

fun search_from :: "regex \<Rightarrow> string \<Rightarrow> nat \<Rightarrow> string \<Rightarrow> (nat \<times> mstate) option" where
  "search_from r s i [] =
     (case rmatch s r (i, None) of [] \<Rightarrow> None | st # _ \<Rightarrow> Some (i, st))"
| "search_from r s i (c # cs) =
     (case rmatch s r (i, None) of [] \<Rightarrow> search_from r s (Suc i) cs | st # _ \<Rightarrow> Some (i, st))"

text \<open>What \<open>m.group(1)\<close> is for a pattern with a group, and \<open>m.group(0)\<close> for one
  without.\<close>

fun match_text :: "string \<Rightarrow> nat \<times> mstate \<Rightarrow> string" where
  "match_text s (i, (e, None)) = take (e - i) (drop i s)"
| "match_text s (i, (e, Some (a, b))) = take (b - a) (drop a s)"

definition re_search :: "regex \<Rightarrow> string \<Rightarrow> string option" where
  "re_search r s = map_option (match_text s) (search_from r s 0 s)"

text \<open>\<open>re.match\<close>: a match at position 0 only.\<close>

definition re_match :: "regex \<Rightarrow> string \<Rightarrow> bool" where
  "re_match r s = (rmatch s r (0, None) \<noteq> [])"

text \<open>
  \<open>re.findall\<close>: the non-overlapping matches from left to right, each search resuming
  where the previous match ended (\<open>skip\<close>).  None of the program's patterns matches the
  empty string, so the special treatment of empty matches never comes into play.
\<close>

fun findall_from :: "regex \<Rightarrow> string \<Rightarrow> nat \<Rightarrow> string \<Rightarrow> nat \<Rightarrow> string list" where
  "findall_from r s i [] skip =
     (if i < skip then []
      else case rmatch s r (i, None) of [] \<Rightarrow> [] | st # _ \<Rightarrow> [match_text s (i, st)])"
| "findall_from r s i (c # cs) skip =
     (if i < skip then findall_from r s (Suc i) cs skip
      else case rmatch s r (i, None) of
             [] \<Rightarrow> findall_from r s (Suc i) cs skip
           | st # _ \<Rightarrow> match_text s (i, st) # findall_from r s (Suc i) cs (max (fst st) (Suc i)))"

definition re_findall :: "regex \<Rightarrow> string \<Rightarrow> string list" where
  "re_findall r s = findall_from r s 0 s 0"

text \<open>A literal word, case-sensitive or under \<open>re.IGNORECASE\<close>.\<close>

definition lit :: "string \<Rightarrow> regex" where
  "lit w = foldr (\<lambda>c r. Seq (Sym (\<lambda>x. x = c)) r) w Eps"

definition lit_ci :: "string \<Rightarrow> regex" where
  "lit_ci w = foldr (\<lambda>c r. Seq (Sym (ci c)) r) w Eps"

section \<open>The patterns of the resolvers\<close>

text \<open>\<^verbatim>\<open>(?:vendor|acct(?:ount)?)\s*(?:#|number)[:\s]*([0-9]{6,8})\<close>, IGNORECASE.\<close>

definition vendor_label_re :: regex where
  "vendor_label_re =
     Seq (Alt (lit_ci ''vendor'') (Seq (lit_ci ''acct'') (Alt (lit_ci ''ount'') Eps)))
    (Seq (Rep 0 None is_space)
    (Seq (Alt (lit_ci ''#'') (lit_ci ''number''))
    (Seq (Rep 0 None (\<lambda>c. c = CHR '':'' \<or> is_space c))
         (Grp (Rep 6 (Some 8) is_digit)))))"

text \<open>\<^verbatim>\<open>\b\d{8}\b\<close>\<close>

definition eight_digit_re :: regex where
  "eight_digit_re = Seq WordB (Seq (Rep 8 (Some 8) is_digit) WordB)"

text \<open>\<^verbatim>\<open>(?:invoice\s*(?:no\.?|#|number)\s*[:\-]?\s*)([A-Z0-9\-/]{4,20})\<close>, IGNORECASE.\<close>

definition invoice_label_re :: regex where
  "invoice_label_re =
     Seq (lit_ci ''invoice'')
    (Seq (Rep 0 None is_space)
    (Seq (Alt (Seq (lit_ci ''no'') (Rep 0 (Some 1) (\<lambda>c. c = CHR ''.'')))
         (Alt (lit_ci ''#'') (lit_ci ''number'')))
    (Seq (Rep 0 None is_space)
    (Seq (Rep 0 (Some 1) (\<lambda>c. c = CHR '':'' \<or> c = CHR ''-''))
    (Seq (Rep 0 None is_space)
         (Grp (Rep 4 (Some 20)
            (\<lambda>c. is_upper c \<or> is_lower c \<or> is_digit c \<or> c = CHR ''-'' \<or> c = CHR ''/''))))))))"

text \<open>\<^verbatim>\<open>\d{1,2}/\d{1,2}/\d{2,4}\s+([A-Z0-9\-]{5,})\<close>\<close>

definition date_token_re :: regex where
  "date_token_re =
     Seq (Rep 1 (Some 2) is_digit)
    (Seq (lit ''/'')
    (Seq (Rep 1 (Some 2) is_digit)
    (Seq (lit ''/'')
    (Seq (Rep 2 (Some 4) is_digit)
    (Seq (Rep 1 None is_space)
         (Grp (Rep 5 None (\<lambda>c. is_upper c \<or> is_digit c \<or> c = CHR ''-''))))))))"

text \<open>\<^verbatim>\<open>\b[0-9]{2}[A-Z]{3}[0-9]{6,}\b\<close>\<close>

definition structural_re :: regex where
  "structural_re =
     Seq WordB
    (Seq (Rep 2 (Some 2) is_digit)
    (Seq (Rep 3 (Some 3) is_upper)
    (Seq (Rep 6 None is_digit) WordB)))"

section \<open>String helpers of the standard library\<close>

text \<open>\<open>str.zfill(width)\<close>: zeros are inserted after a leading sign.\<close>

definition zfill :: "nat \<Rightarrow> string \<Rightarrow> string" where
  "zfill w s =
     (case s of
        c # cs \<Rightarrow>
          if c = CHR ''+'' \<or> c = CHR ''-''
          then c # replicate (w - length s) CHR ''0'' @ cs
          else replicate (w - length s) CHR ''0'' @ s
      | [] \<Rightarrow> replicate w CHR ''0'')"

text \<open>\<open>str.strip()\<close>: leading and trailing white space removed.\<close>

definition strip :: "string \<Rightarrow> string" where
  "strip s = rev (dropWhile is_space (rev (dropWhile is_space s)))"

text \<open>\<open>os.path.basename\<close> (POSIX): what follows the last slash.\<close>

definition basename :: "string \<Rightarrow> string" where
  "basename p = rev (takeWhile (\<lambda>c. c \<noteq> CHR ''/'') (rev p))"

text \<open>
  \<open>os.path.splitext(b)[0]\<close> for a name \<open>b\<close> without slash: the name up to its last dot,
  where the dots that start the name do not count as the start of an extension.
\<close>

definition splitext_root :: "string \<Rightarrow> string" where
  "splitext_root b =
     (let stem = dropWhile (\<lambda>c. c = CHR ''.'') b;
          ext = takeWhile (\<lambda>c. c \<noteq> CHR ''.'') (rev stem)
      in if CHR ''.'' \<in> set stem then take (length b - Suc (length ext)) b else b)"

section \<open>Vendor and invoice number resolvers\<close>

text \<open>\<open>d.get(k)\<close> used as a condition: the value if the key is present and the value is
  not the empty string.\<close>

definition get_truthy :: "(string \<rightharpoonup> string) \<Rightarrow> string \<Rightarrow> string option" where
  "get_truthy d k = (case d k of None \<Rightarrow> None | Some v \<Rightarrow> if v = [] then None else Some v)"

definition extract_vendor_number :: "string \<Rightarrow> string \<Rightarrow> (string \<rightharpoonup> string) \<Rightarrow> string" where
  "extract_vendor_number text source_file donut_json =
     (case get_truthy donut_json ''vendor_number'' of
        Some v \<Rightarrow> v
      | None \<Rightarrow>
     (case re_search vendor_label_re text of
        Some m \<Rightarrow> zfill 8 m
      | None \<Rightarrow>
     (case re_findall eight_digit_re text of
        fb0 # _ \<Rightarrow> fb0
      | [] \<Rightarrow> splitext_root (basename source_file))))"

definition first_truthy :: "(string \<rightharpoonup> string) \<Rightarrow> string list \<Rightarrow> string option" where
  "first_truthy d ks = (case List.map_filter (get_truthy d) ks of [] \<Rightarrow> None | v # _ \<Rightarrow> Some v)"

definition extract_invoice_number :: "string \<Rightarrow> string \<Rightarrow> (string \<rightharpoonup> string) \<Rightarrow> string" where
  "extract_invoice_number text source_file donut_json =
     (case first_truthy donut_json [''invoice_number'', ''invoice_id'', ''invoice_no''] of
        Some v \<Rightarrow> v
      | None \<Rightarrow>
     (case re_search invoice_label_re text of
        Some m \<Rightarrow> strip m
      | None \<Rightarrow>
     (case re_search date_token_re text of
        Some m2 \<Rightarrow> m2
      | None \<Rightarrow>
     (case re_findall structural_re text of
        fb0 # _ \<Rightarrow> fb0
      | [] \<Rightarrow> splitext_root (basename source_file)))))"

section \<open>Floating point numbers\<close>

text \<open>
  The non-negative values of Python's \<open>float\<close> (IEEE 754 binary64).  Every finite
  double is an integer multiple of \<open>2^-1074\<close>, the smallest positive one: \<open>Fin k\<close>
  is the double \<open>k \<times> 2^-1074\<close>.  \<open>PInf\<close> is the infinity that a conversion yields
  when the decimal is too large.  The resolver never produces a negative number or a
  NaN, so the order below is the order in which Python compares its floats.
\<close>

datatype pyfloat = Fin nat | PInf

instantiation pyfloat :: linorder
begin

fun less_eq_pyfloat :: "pyfloat \<Rightarrow> pyfloat \<Rightarrow> bool" where
  "less_eq_pyfloat (Fin a) (Fin b) = (a \<le> b)"
| "less_eq_pyfloat PInf (Fin b) = False"
| "less_eq_pyfloat x PInf = True"

definition less_pyfloat :: "pyfloat \<Rightarrow> pyfloat \<Rightarrow> bool" where
  "less_pyfloat x y = (x \<le> y \<and> \<not> y \<le> x)"

instance
proof
  fix x y z :: pyfloat
  show "(x < y) = (x \<le> y \<and> \<not> y \<le> x)" by (simp add: less_pyfloat_def)
  show "x \<le> x" by (cases x) simp_all
  show "x \<le> y \<Longrightarrow> y \<le> z \<Longrightarrow> x \<le> z" by (cases x; cases y; cases z) simp_all
  show "x \<le> y \<Longrightarrow> y \<le> x \<Longrightarrow> x = y" by (cases x; cases y) simp_all
  show "x \<le> y \<or> y \<le> x" by (cases x; cases y) auto
qed

end

text \<open>Rounding the fraction \<open>n / d\<close> to the nearest natural number, ties to even.\<close>

definition round_half_even :: "nat \<Rightarrow> nat \<Rightarrow> nat" where
  "round_half_even n d =
     (let q = n div d; r = n mod d
      in if 2 * r < d then q else if d < 2 * r then Suc q else if even q then q else Suc q)"

fun bitlen :: "nat \<Rightarrow> nat" where
  "bitlen n = (if n = 0 then 0 else Suc (bitlen (n div 2)))"

text \<open>
  The double nearest to \<open>n / d\<close> (correct rounding, ties to even, as \<open>float(str)\<close>
  does): the exponent \<open>e\<close> is chosen so that \<open>n / (d \<times> 2^e)\<close> lies in
  \<open>[2^52, 2^53)\<close>, but not below \<open>-1074\<close>, the exponent of the subnormal numbers;
  the scaled value is rounded to the integer \<open>m\<close>; the result is \<open>m \<times> 2^e\<close>, and
  infinity when that is \<open>2^1024\<close> or more.
\<close>

definition double_of_frac :: "nat \<Rightarrow> nat \<Rightarrow> pyfloat" where
  "double_of_frac n d =
     (if n = 0 then Fin 0
      else
        let e0 = int (bitlen n) - int (bitlen d) - 53;
            below = (if 0 \<le> e0 then n < 2 ^ 53 * d * 2 ^ nat e0
                     else n * 2 ^ nat (- e0) < 2 ^ 53 * d);
            e = max (if below then e0 else e0 + 1) (- 1074);
            m = (if 0 \<le> e then round_half_even n (d * 2 ^ nat e)
                 else round_half_even (n * 2 ^ nat (- e)) d);
            k = m * 2 ^ nat (e + 1074)
        in if 2 ^ 2098 \<le> k then PInf else Fin k)"

definition digit_val :: "char \<Rightarrow> nat" where
  "digit_val c = of_char c - 48"

definition nat_of_digits :: "string \<Rightarrow> nat" where
  "nat_of_digits ds = foldl (\<lambda>a c. 10 * a + digit_val c) 0 ds"

text \<open>
  \<open>float(s)\<close> on a plain decimal literal: digits with at most one dot and at least one
  digit.  \<open>None\<close> stands for every other string; the amount pattern never delivers one,
  so what \<open>float\<close> does there is left out.
\<close>

definition float_of_decimal :: "string \<Rightarrow> pyfloat option" where
  "float_of_decimal s =
     (let ip = takeWhile (\<lambda>c. c \<noteq> CHR ''.'') s;
          fp = drop 1 (dropWhile (\<lambda>c. c \<noteq> CHR ''.'') s)
      in if list_all is_digit (ip @ fp) \<and> ip @ fp \<noteq> []
         then Some (double_of_frac (nat_of_digits (ip @ fp)) (10 ^ length fp))
         else None)"

definition digit_char :: "nat \<Rightarrow> char" where
  "digit_char d = ''0123456789'' ! (d mod 10)"

fun show_nat :: "nat \<Rightarrow> string" where
  "show_nat n = (if n < 10 then [digit_char n] else show_nat (n div 10) @ [digit_char n])"

text \<open>
  The format \<open>f"{x:.2f}"\<close> of a non-negative float: the exact value rounded to
  hundredths, ties to even, printed with two fractional digits; infinity prints as
  \<open>inf\<close>.
\<close>

fun fmt2 :: "pyfloat \<Rightarrow> string" where
  "fmt2 PInf = ''inf''"
| "fmt2 (Fin k) =
     (let cents = round_half_even (k * 100) (2 ^ 1074)
      in show_nat (cents div 100) @ ''.'' @ [digit_char (cents div 10), digit_char cents])"

text \<open>
  The shape of a fixed two-decimal numeric string: one or more digits, a dot, two digits.
\<close>

definition two_decimal :: "string \<Rightarrow> bool" where
  "two_decimal v =
     (case rev v of
        c2 # c1 # d # ip \<Rightarrow>
          is_digit c2 \<and> is_digit c1 \<and> d = CHR ''.'' \<and> ip \<noteq> [] \<and> list_all is_digit ip
      | _ \<Rightarrow> False)"

section \<open>Financial details resolver\<close>

text \<open>\<^verbatim>\<open>(?<!\d)(?:USD|US\$|\$|P|E)\s*([\d,]+(?:\.\d{2}))\<close>, where \<open>P\<close> is the pound sign,
  the code point \<open>0xA3\<close>, and \<open>E\<close> is the euro sign.\<close>

definition amt_re :: regex where
  "amt_re =
     Seq (NotAfter is_digit)
    (Seq (Alt (lit ''USD'') (Alt (lit ''US$'') (Alt (lit ''$'')
           (Alt (lit [CHR 0xA3]) (lit [euro])))))
    (Seq (Rep 0 None is_space)
         (Grp (Seq (Rep 1 None (\<lambda>c. is_digit c \<or> c = CHR '',''))
              (Seq (lit ''.'') (Rep 2 (Some 2) is_digit))))))"

text \<open>\<^verbatim>\<open>[\d,]+\.\d{2}\<close>, the pattern of the table cell.\<close>

definition cell_re :: regex where
  "cell_re =
     Seq (Rep 1 None (\<lambda>c. is_digit c \<or> c = CHR '','')) 
    (Seq (lit ''.'') (Rep 2 (Some 2) is_digit))"

text \<open>\<open>a.replace(",", "")\<close>\<close>

definition strip_commas :: "string \<Rightarrow> string" where
  "strip_commas a = filter (\<lambda>c. c \<noteq> CHR '','') a"

datatype py_error = ValueError

text \<open>\<open>[float(a.replace(",","")) for a in re.findall(amt_re, text)]\<close>: the first
  conversion that fails raises.\<close>

definition text_amounts :: "string \<Rightarrow> py_error + pyfloat list" where
  "text_amounts text =
     (case those (map (\<lambda>a. float_of_decimal (strip_commas a)) (re_findall amt_re text)) of
        None \<Rightarrow> Inl ValueError
      | Some nums \<Rightarrow> Inr nums)"

text \<open>
  What the table extractor returns: for every page of the document the list of its
  tables, a table being a list of rows of cells, a cell a string or \<open>None\<close>.  An
  exception of the extractor at some page is caught by the resolver and ends the loop
  there, with the same effect as a document that ends before that page.
\<close>

type_synonym table = "string option list list"
type_synonym page = "table list"

text \<open>
  The loop of the table fallback.  \<open>tables[0][-1][-1]\<close> raises IndexError on a table
  without rows or a last row without cells; \<open>except: pass\<close> then abandons the loop.
\<close>

fun table_total :: "page list \<Rightarrow> string option" where
  "table_total [] = None"
| "table_total (tables # ps) =
     (case tables of
        [] \<Rightarrow> table_total ps
      | t # _ \<Rightarrow>
          if t = [] \<or> last t = [] then None
          else (case last (last t) of
                  None \<Rightarrow> table_total ps
                | Some cell \<Rightarrow>
                    if cell \<noteq> [] \<and> re_match cell_re cell then Some (strip_commas cell)
                    else table_total ps))"

definition json_details :: "(string \<rightharpoonup> string) \<Rightarrow> (string \<rightharpoonup> string)" where
  "json_details donut_json =
     (let details = Map.empty;
          details = (case get_truthy donut_json ''invoice_total'' of
                       Some jt \<Rightarrow> details(''invoice_total'' \<mapsto> jt) | None \<Rightarrow> details);
          details = (case get_truthy donut_json ''invoice_net_amount'' of
                       Some jn \<Rightarrow> details(''invoice_net_amount'' \<mapsto> jn) | None \<Rightarrow> details)
      in details)"

definition text_total :: "string \<Rightarrow> (string \<rightharpoonup> string) \<Rightarrow> py_error + (string \<rightharpoonup> string)" where
  "text_total text details =
     (if details ''invoice_total'' = None
      then (case text_amounts text of
              Inl e \<Rightarrow> Inl e
            | Inr nums \<Rightarrow>
                (case nums of
                   [] \<Rightarrow> Inr details
                 | x # xs \<Rightarrow> Inr (details(''invoice_total'' \<mapsto> fmt2 (foldl max x xs)))))
      else Inr details)"

definition text_net :: "string \<Rightarrow> (string \<rightharpoonup> string) \<Rightarrow> py_error + (string \<rightharpoonup> string)" where
  "text_net text details =
     (if details ''invoice_net_amount'' = None
      then (case text_amounts text of
              Inl e \<Rightarrow> Inl e
            | Inr nums \<Rightarrow>
                if 1 < length nums
                then Inr (details(''invoice_net_amount'' \<mapsto> fmt2 (rev (sort nums) ! 1)))
                else (case nums of
                        [] \<Rightarrow> Inr details
                      | x # _ \<Rightarrow> Inr (details(''invoice_net_amount'' \<mapsto> fmt2 x))))
      else Inr details)"

definition table_fallback :: "page list \<Rightarrow> (string \<rightharpoonup> string) \<Rightarrow> (string \<rightharpoonup> string)" where
  "table_fallback pdf details =
     (if details ''invoice_total'' = None
      then (case table_total pdf of
              Some v \<Rightarrow> details(''invoice_total'' \<mapsto> v)
            | None \<Rightarrow> details)
      else details)"

definition extract_financial_details ::
  "string \<Rightarrow> page list \<Rightarrow> (string \<rightharpoonup> string) \<Rightarrow> py_error + (string \<rightharpoonup> string)" where
  "extract_financial_details text pdf donut_json =
     (case text_total text (json_details donut_json) of
        Inl e \<Rightarrow> Inl e
      | Inr details \<Rightarrow>
     (case text_net text details of
        Inl e \<Rightarrow> Inl e
      | Inr details \<Rightarrow> Inr (table_fallback pdf details)))"

section \<open>Record assembly\<close>

record invoice_record =
  vendor_number :: string
  invoice_number :: string
  invoice_total :: string
  invoice_net_amount :: string

text \<open>
  What the external providers deliver for one PDF payload: the text of
  \<open>extract_text_from_pdf_bytes\<close>, the dictionary of \<open>parse_invoice_with_donut\<close> and the
  tables the table extractor finds in the payload.
\<close>

record signals =
  extracted_text :: string
  donut_json :: "string \<rightharpoonup> string"
  tables :: "page list"

text \<open>One part of the parsed message: its content type, its file name if it has one, and
  the signals of its decoded payload (\<open>None\<close> for a part without payload).\<close>

record mime_part =
  content_type :: string
  filename :: "string option"
  payload :: "signals option"

text \<open>\<open>str.lower()\<close> on the code points below 256.\<close>

definition lower_char :: "char \<Rightarrow> char" where
  "lower_char c =
     (let n = (of_char c :: nat)
      in if (0x41 \<le> n \<and> n \<le> 0x5A) \<or> (0xC0 \<le> n \<and> n \<le> 0xDE \<and> n \<noteq> 0xD7)
         then char_of (n + 0x20) else c)"

definition is_pdf_part :: "mime_part \<Rightarrow> bool" where
  "is_pdf_part p =
     (let fn = (case filename p of None \<Rightarrow> [] | Some f \<Rightarrow> f)
      in \<not> (content_type p \<noteq> ''application/pdf'' \<and> \<not> suffix ''.pdf'' (map lower_char fn)))"

text \<open>\<open>d.get(k, "")\<close>\<close>

definition get_or_empty :: "(string \<rightharpoonup> string) \<Rightarrow> string \<Rightarrow> string" where
  "get_or_empty d k = (case d k of None \<Rightarrow> [] | Some v \<Rightarrow> v)"

text \<open>The record built for one payload.  The source calls \<open>extract_financial_details\<close>
  once per field with the same arguments; both calls return the same dictionary.\<close>

definition assemble :: "string \<Rightarrow> signals \<Rightarrow> py_error + invoice_record" where
  "assemble eml_path sg =
     (case extract_financial_details (extracted_text sg) (tables sg) (donut_json sg) of
        Inl e \<Rightarrow> Inl e
      | Inr details \<Rightarrow>
          Inr \<lparr> vendor_number = extract_vendor_number (extracted_text sg) eml_path (donut_json sg),
                invoice_number = extract_invoice_number (extracted_text sg) eml_path (donut_json sg),
                invoice_total = get_or_empty details ''invoice_total'',
                invoice_net_amount = get_or_empty details ''invoice_net_amount'' \<rparr>)"

fun extract_records_from_eml :: "string \<Rightarrow> mime_part list \<Rightarrow> py_error + invoice_record list" where
  "extract_records_from_eml eml_path [] = Inr []"
| "extract_records_from_eml eml_path (p # ps) =
     (if \<not> is_pdf_part p then extract_records_from_eml eml_path ps
      else case payload p of
             None \<Rightarrow> extract_records_from_eml eml_path ps
           | Some sg \<Rightarrow>
               (case assemble eml_path sg of
                  Inl e \<Rightarrow> Inl e
                | Inr r \<Rightarrow>
                    (case extract_records_from_eml eml_path ps of
                       Inl e \<Rightarrow> Inl e
                     | Inr rs \<Rightarrow> Inr (r # rs))))"

text \<open>
  Two notions used to state properties of the record assembly.  \<open>pdf_payloads\<close> lists
  the signals of the parts for which \<open>extract_records_from_eml\<close> builds a record, in
  the order of the parts: the parts that pass the PDF test and have a payload.
  \<open>falls_through\<close> holds of the signals on which both resolvers reach the filename
  fallback: no structured field is populated and none of the patterns matches the text.
\<close>

definition pdf_payloads :: "mime_part list \<Rightarrow> signals list" where
  "pdf_payloads parts = List.map_filter (\<lambda>p. if is_pdf_part p then payload p else None) parts"

definition falls_through :: "signals \<Rightarrow> bool" where
  "falls_through sg =
     (get_truthy (donut_json sg) ''vendor_number'' = None \<and>
      re_search vendor_label_re (extracted_text sg) = None \<and>
      re_findall eight_digit_re (extracted_text sg) = [] \<and>
      first_truthy (donut_json sg) [''invoice_number'', ''invoice_id'', ''invoice_no''] = None \<and>
      re_search invoice_label_re (extracted_text sg) = None \<and>
      re_search date_token_re (extracted_text sg) = None \<and>
      re_findall structural_re (extracted_text sg) = [])"

section \<open>Deduplication, serialization and the driver\<close>

text \<open>The key \<open>(rec["vendor_number"], rec["invoice_number"])\<close> of a record.\<close>

definition business_key :: "invoice_record \<Rightarrow> string \<times> string" where
  "business_key r = (vendor_number r, invoice_number r)"

text \<open>The loop of \<open>main\<close> over \<open>records\<close> with the set \<open>seen\<close> and the list \<open>unique\<close>.\<close>

fun dedup_loop ::
  "invoice_record list \<Rightarrow> (string \<times> string) set \<Rightarrow> invoice_record list \<Rightarrow> invoice_record list"
where
  "dedup_loop [] seen unique = unique"
| "dedup_loop (r # records) seen unique =
     (let key = business_key r
      in if key \<notin> seen then dedup_loop records (insert key seen) (unique @ [r])
         else dedup_loop records seen unique)"

definition dedup :: "invoice_record list \<Rightarrow> invoice_record list" where
  "dedup records = dedup_loop records {} []"

text \<open>The command line arguments, all strings.\<close>

record args =
  folder :: string
  output_file :: string
  default_org :: string
  default_object :: string
  remit_number :: string
  invoice_date :: string
  invoice_due_date :: string
  po_fiscal_year :: string
  po_number :: string
  include_documentation :: string
  separate_check :: string
  contract_number :: string
  invoice_description :: string
  project :: string
  po_line_number :: string
  sequence_start :: string
  detail_description :: string

definition title_row :: "string list" where
  "title_row =
     [''Row Type'', ''Vendor Number'', ''Remit Number'', ''Invoice Number'',
      ''Invoice Date'', ''Invoice Due Date'', ''Invoice Total'', ''Invoice Net Amount'',
      ''PO Fiscal Year'', ''PO Number'', ''Include Documentation'', ''Separate Check'',
      ''Contract Number'', ''Invoice Description'']"

definition header_row :: "args \<Rightarrow> invoice_record \<Rightarrow> string list" where
  "header_row a r =
     [''1'', vendor_number r, remit_number a, invoice_number r,
      invoice_date a, invoice_due_date a,
      invoice_total r, invoice_net_amount r,
      po_fiscal_year a, po_number a,
      include_documentation a, separate_check a,
      contract_number a, invoice_description a]"

definition detail_row :: "args \<Rightarrow> invoice_record \<Rightarrow> string list" where
  "detail_row a r =
     [''2'', vendor_number r, sequence_start a, invoice_number r,
      default_org a, default_object a, project a,
      invoice_total r, po_line_number a,
      [], [], [], [], detail_description a]"

text \<open>
  The output file as the list of the rows written so far: \<open>open(out_path, "w")\<close> starts
  with no row, and each \<open>w.writerow(row)\<close> adds one row at the end.  How the CSV writer
  quotes the fields of a row is not part of the program.
\<close>

definition writerow :: "string list list \<Rightarrow> string list \<Rightarrow> string list list" where
  "writerow f row = f @ [row]"

text \<open>The loop \<open>for rec in records\<close> of \<open>write_munis_csv\<close>, with its two calls of
  \<open>writerow\<close>.\<close>

fun write_records :: "string list list \<Rightarrow> invoice_record list \<Rightarrow> args \<Rightarrow> string list list" where
  "write_records f [] a = f"
| "write_records f (r # records) a =
     write_records (writerow (writerow f (header_row a r)) (detail_row a r)) records a"

definition write_munis_csv :: "invoice_record list \<Rightarrow> args \<Rightarrow> string list list" where
  "write_munis_csv records a = write_records (writerow [] title_row) records a"

text \<open>How a run ends: \<open>sys.exit\<close> with a message, or the rows written to the output
  file.\<close>

datatype outcome = Exit string | Wrote "string list list"

fun collect :: "(string \<times> mime_part list) list \<Rightarrow> py_error + invoice_record list" where
  "collect [] = Inr []"
| "collect ((eml, parts) # emls) =
     (case extract_records_from_eml eml parts of
        Inl e \<Rightarrow> Inl e
      | Inr recs \<Rightarrow> (case collect emls of Inl e \<Rightarrow> Inl e | Inr rest \<Rightarrow> Inr (recs @ rest)))"

text \<open>
  \<open>main\<close> after argument parsing: \<open>folder_is_dir\<close> is the answer of \<open>os.path.isdir\<close>,
  \<open>eml_files\<close> the paths of the \<open>.eml\<close> files under the folder, each with the parts of its
  message.
\<close>

definition main :: "bool \<Rightarrow> (string \<times> mime_part list) list \<Rightarrow> args \<Rightarrow> py_error + outcome" where
  "main folder_is_dir eml_files a =
     (if \<not> folder_is_dir then Inr (Exit (''Error: folder not found: '' @ folder a))
      else case collect (sort_key fst eml_files) of
             Inl e \<Rightarrow> Inl e
           | Inr records \<Rightarrow>
               if records = [] then Inr (Exit ''No PDF attachments found.'')
               else Inr (Wrote (write_munis_csv (dedup records) a)))"

section \<open>Properties of the deduplicator\<close>

lemma dedup_loop_index:
  "dedup_loop rs seen acc =
     acc @ map (\<lambda>i. rs ! i)
             (filter (\<lambda>i. business_key (rs ! i) \<notin> seen \<union> business_key ` set (take i rs))
                     [0..<length rs])"
proof (induction rs arbitrary: seen acc)
  case Nil
  then show ?case by simp
next
  case (Cons r rs)
  have upt: "[0..<length (r # rs)] = 0 # map Suc [0..<length rs]"
    using upt_conv_Cons[of 0 "Suc (length rs)"] by (simp add: map_Suc_upt del: upt_Suc)
  show ?case
    unfolding upt
    apply (simp add: Cons.IH Let_def filter_map comp_def)
    apply (intro conjI impI arg_cong[where f = "map ((!) rs)"] filter_cong refl)
     apply auto
    done
qed

lemma dedup_loop_distinct:
  "distinct (map business_key rs) \<Longrightarrow> business_key ` set rs \<inter> seen = {} \<Longrightarrow>
   dedup_loop rs seen acc = acc @ rs"
  by (induction rs arbitrary: seen acc) (auto simp: Let_def)

lemma dedup_loop_keys:
  "distinct (map business_key acc) \<Longrightarrow> business_key ` set acc \<subseteq> seen \<Longrightarrow>
   distinct (map business_key (dedup_loop rs seen acc))"
proof (induction rs arbitrary: seen acc)
  case Nil
  then show ?case by simp
next
  case (Cons r rs)
  show ?case
  proof (cases "business_key r \<in> seen")
    case True
    with Cons.IH[OF Cons.prems] show ?thesis by (simp add: Let_def)
  next
    case False
    with Cons.prems have d: "distinct (map business_key (acc @ [r]))"
      and s: "business_key ` set (acc @ [r]) \<subseteq> insert (business_key r) seen"
      by auto
    from False Cons.IH[OF d s] show ?thesis by (simp add: Let_def)
  qed
qed

lemma dedup_loop_subseq:
  "\<exists>ys. dedup_loop rs seen acc = acc @ ys \<and> subseq ys rs"
proof (induction rs arbitrary: seen acc)
  case Nil
  then show ?case by simp
next
  case (Cons r rs)
  show ?case
  proof (cases "business_key r \<in> seen")
    case True
    from Cons.IH[of seen acc] obtain ys where "dedup_loop rs seen acc = acc @ ys" "subseq ys rs"
      by blast
    with True show ?thesis by (auto simp: Let_def)
  next
    case False
    from Cons.IH[of "insert (business_key r) seen" "acc @ [r]"]
    obtain ys where "dedup_loop rs (insert (business_key r) seen) (acc @ [r]) = (acc @ [r]) @ ys"
      "subseq ys rs" by blast
    with False show ?thesis by (auto simp: Let_def intro!: exI[of _ "r # ys"])
  qed
qed

text \<open>
  Claim C6.  The deduplicator returns, in input order, exactly the records whose key,
  the pair of the record's \<open>vendor_number\<close> and \<open>invoice_number\<close>, does not occur at
  an earlier position of the input: the record at position \<open>i\<close> is kept if and only if
  no record before \<open>i\<close> has both its vendor number and its invoice number.  The result
  is a subsequence of the input, so every record it holds is a record of the input,
  unchanged, whatever the other fields of a dropped record are, and no two of its records
  have the same vendor number and the same invoice number.
\<close>

theorem dedup_first_occurrences:
  "dedup rs = map (\<lambda>i. rs ! i)
                (filter (\<lambda>i. (vendor_number (rs ! i), invoice_number (rs ! i)) \<notin>
                               set (map (\<lambda>r. (vendor_number r, invoice_number r)) (take i rs)))
                        [0..<length rs])
   \<and> subseq (dedup rs) rs
   \<and> distinct (map (\<lambda>r. (vendor_number r, invoice_number r)) (dedup rs))"
proof -
  have key: "business_key = (\<lambda>r. (vendor_number r, invoice_number r))"
    by (rule ext) (simp add: business_key_def)
  have "dedup rs = map (\<lambda>i. rs ! i)
                (filter (\<lambda>i. business_key (rs ! i) \<notin> business_key ` set (take i rs))
                        [0..<length rs])"
    by (simp add: dedup_def dedup_loop_index)
  then have a: "dedup rs = map (\<lambda>i. rs ! i)
                (filter (\<lambda>i. (vendor_number (rs ! i), invoice_number (rs ! i)) \<notin>
                               set (map (\<lambda>r. (vendor_number r, invoice_number r)) (take i rs)))
                        [0..<length rs])"
    unfolding key by simp
  have b: "subseq (dedup rs) rs"
    using dedup_loop_subseq[of rs "{}" "[]"] by (auto simp: dedup_def)
  have "distinct (map business_key (dedup rs))"
    unfolding dedup_def by (rule dedup_loop_keys) simp_all
  then have c: "distinct (map (\<lambda>r. (vendor_number r, invoice_number r)) (dedup rs))"
    unfolding key .
  from a b c show ?thesis by blast
qed

text \<open>
  Claim C7.  Deduplication is idempotent: applied to its own output it returns that
  output unchanged.
\<close>

theorem dedup_idempotent: "dedup (dedup rs) = dedup rs"
proof -
  have "distinct (map business_key (dedup rs))"
    unfolding dedup_def by (rule dedup_loop_keys) simp_all
  then have "dedup_loop (dedup rs) {} [] = [] @ dedup rs"
    by (rule dedup_loop_distinct) simp
  then show ?thesis by (simp add: dedup_def)
qed

section \<open>Properties of the serializer and the driver\<close>

lemma write_records_eq:
  "write_records f rs a = f @ concat (map (\<lambda>r. [header_row a r, detail_row a r]) rs)"
  by (induction rs arbitrary: f) (simp_all add: writerow_def)

lemma pairs_length: "length (concat (map (\<lambda>r. [g r, h r]) rs)) = 2 * length rs"
  by (induction rs) simp_all

lemma pairs_nth:
  "i < length rs \<Longrightarrow>
   concat (map (\<lambda>r. [g r, h r]) rs) ! (2 * i) = g (rs ! i) \<and>
   concat (map (\<lambda>r. [g r, h r]) rs) ! (2 * i + 1) = h (rs ! i)"
proof (induction rs arbitrary: i)
  case Nil
  then show ?case by simp
next
  case (Cons r rs)
  show ?case
  proof (cases i)
    case 0
    then show ?thesis by simp
  next
    case (Suc j)
    with Cons.prems have "j < length rs" by simp
    from Cons.IH[OF this] Suc show ?thesis by simp
  qed
qed

text \<open>
  Claim C8, as amended.  The output of the serializer is the row of column titles followed
  by two rows for each record, in record order: for the record at position \<open>i\<close>, row
  \<open>2i + 1\<close> is the header row of type "1" with the columns (RowType, VendorNumber,
  RemitNumber, InvoiceNumber, InvoiceDate, InvoiceDueDate, InvoiceTotal, InvoiceNetAmount,
  POFiscalYear, PONumber, IncludeDocumentation, SeparateCheck, ContractNumber,
  InvoiceDescription) and row \<open>2i + 2\<close> is the detail row of type "2" with the columns
  (RowType, VendorNumber, SequenceStart, InvoiceNumber, DefaultOrg, DefaultObject, Project,
  InvoiceTotal, POLineNumber, "", "", "", "", DetailDescription).  Both rows carry the
  vendor and invoice number of the record; every other value is the caller's
  configuration, unchanged.  There are no further rows.
\<close>

theorem write_munis_csv_rows:
  "length (write_munis_csv records a) = 1 + 2 * length records \<and>
   write_munis_csv records a ! 0 = title_row \<and>
   (\<forall>i < length records.
      write_munis_csv records a ! (2 * i + 1) =
        [''1'', vendor_number (records ! i), remit_number a, invoice_number (records ! i),
         invoice_date a, invoice_due_date a,
         invoice_total (records ! i), invoice_net_amount (records ! i),
         po_fiscal_year a, po_number a, include_documentation a, separate_check a,
         contract_number a, invoice_description a] \<and>
      write_munis_csv records a ! (2 * i + 2) =
        [''2'', vendor_number (records ! i), sequence_start a, invoice_number (records ! i),
         default_org a, default_object a, project a,
         invoice_total (records ! i), po_line_number a,
         [], [], [], [], detail_description a])"
proof -
  let ?ps = "concat (map (\<lambda>r. [header_row a r, detail_row a r]) records)"
  have eq: "write_munis_csv records a = title_row # ?ps"
    by (simp add: write_munis_csv_def write_records_eq writerow_def)
  have len: "length (write_munis_csv records a) = 1 + 2 * length records"
    by (simp add: eq pairs_length)
  have hd: "write_munis_csv records a ! 0 = title_row"
    by (simp add: eq)
  have rows: "write_munis_csv records a ! (2 * i + 1) = header_row a (records ! i) \<and>
              write_munis_csv records a ! (2 * i + 2) = detail_row a (records ! i)"
    if "i < length records" for i
    using pairs_nth[OF that, of "header_row a" "detail_row a"] by (simp add: eq)
  from len hd rows show ?thesis
    by (simp add: header_row_def detail_row_def)
qed

theorem write_munis_csv_rows_witness:
  "(0::nat) < length [\<lparr>vendor_number = ''00123456'', invoice_number = ''INV-1'',
                       invoice_total = ''500.00'', invoice_net_amount = ''450.00''\<rparr>] \<and>
   write_munis_csv
     [\<lparr>vendor_number = ''00123456'', invoice_number = ''INV-1'',
       invoice_total = ''500.00'', invoice_net_amount = ''450.00''\<rparr>]
     \<lparr>folder = ''.'', output_file = ''munis_import.csv'', default_org = ''o'',
      default_object = ''b'', remit_number = ''0'', invoice_date = ''d1'',
      invoice_due_date = ''d2'', po_fiscal_year = ''y'', po_number = ''p'',
      include_documentation = ''i'', separate_check = ''s'', contract_number = ''c'',
      invoice_description = ''desc'', project = ''pr'', po_line_number = ''l'',
      sequence_start = ''1'', detail_description = ''dd''\<rparr> ! 2 =
   [''2'', ''00123456'', ''1'', ''INV-1'', ''o'', ''b'', ''pr'', ''500.00'', ''l'',
    [], [], [], [], ''dd'']"
proof -
  let ?rs = "[\<lparr>vendor_number = ''00123456'', invoice_number = ''INV-1'',
                invoice_total = ''500.00'', invoice_net_amount = ''450.00''\<rparr>]"
  let ?a = "\<lparr>folder = ''.'', output_file = ''munis_import.csv'', default_org = ''o'',
      default_object = ''b'', remit_number = ''0'', invoice_date = ''d1'',
      invoice_due_date = ''d2'', po_fiscal_year = ''y'', po_number = ''p'',
      include_documentation = ''i'', separate_check = ''s'', contract_number = ''c'',
      invoice_description = ''desc'', project = ''pr'', po_line_number = ''l'',
      sequence_start = ''1'', detail_description = ''dd''\<rparr>"
  have h: "(0::nat) < length ?rs" by simp
  from write_munis_csv_rows[of ?rs ?a] h
  have "write_munis_csv ?rs ?a ! (2 * 0 + 2) =
        [''2'', vendor_number (?rs ! 0), sequence_start ?a, invoice_number (?rs ! 0),
         default_org ?a, default_object ?a, project ?a,
         invoice_total (?rs ! 0), po_line_number ?a,
         [], [], [], [], detail_description ?a]"
    by blast
  with h show ?thesis by (simp add: numeral_2_eq_2)
qed

text \<open>
  Claim C8 as stated fails: the output does not consist of the row pairs alone.  For one
  record the file has three rows, the first being the column titles.
\<close>

theorem write_munis_csv_title_counterexample:
  "write_munis_csv
     [\<lparr>vendor_number = ''00123456'', invoice_number = ''INV-1'',
       invoice_total = ''500.00'', invoice_net_amount = ''450.00''\<rparr>]
     \<lparr>folder = ''.'', output_file = ''munis_import.csv'', default_org = ''o'',
      default_object = ''b'', remit_number = ''0'', invoice_date = ''d1'',
      invoice_due_date = ''d2'', po_fiscal_year = ''y'', po_number = ''p'',
      include_documentation = ''i'', separate_check = ''s'', contract_number = ''c'',
      invoice_description = ''desc'', project = ''pr'', po_line_number = ''l'',
      sequence_start = ''1'', detail_description = ''dd''\<rparr> =
   [[''Row Type'', ''Vendor Number'', ''Remit Number'', ''Invoice Number'',
     ''Invoice Date'', ''Invoice Due Date'', ''Invoice Total'', ''Invoice Net Amount'',
     ''PO Fiscal Year'', ''PO Number'', ''Include Documentation'', ''Separate Check'',
     ''Contract Number'', ''Invoice Description''],
    [''1'', ''00123456'', ''0'', ''INV-1'', ''d1'', ''d2'', ''500.00'', ''450.00'',
     ''y'', ''p'', ''i'', ''s'', ''c'', ''desc''],
    [''2'', ''00123456'', ''1'', ''INV-1'', ''o'', ''b'', ''pr'', ''500.00'', ''l'',
     [], [], [], [], ''dd'']]"
  by (simp add: write_munis_csv_def writerow_def title_row_def header_row_def detail_row_def)

lemma collect_no_pdf_parts:
  "\<forall>q \<in> set parts. \<not> (is_pdf_part q \<and> payload q \<noteq> None) \<Longrightarrow>
   extract_records_from_eml eml parts = Inr []"
  by (induction parts) (auto split: option.splits)

lemma collect_empty:
  "\<forall>e \<in> set emls. \<forall>q \<in> set (snd e). \<not> (is_pdf_part q \<and> payload q \<noteq> None) \<Longrightarrow>
   collect emls = Inr []"
proof (induction emls)
  case Nil
  then show ?case by simp
next
  case (Cons e emls)
  obtain eml parts where e: "e = (eml, parts)" by (cases e)
  from Cons.prems e have "extract_records_from_eml eml parts = Inr []"
    by (intro collect_no_pdf_parts) auto
  moreover from Cons have "collect emls = Inr []" by simp
  ultimately show ?case by (simp add: e)
qed

text \<open>
  Claim C9.  When the emails yield no record, the run ends with the message
  \<open>No PDF attachments found.\<close> and writes nothing; this is the case in particular when
  there is no email, or no part of any email is a PDF part with a payload.  Whenever the
  run does write rows, they are the serialization of a non-empty list of records.
\<close>

theorem main_no_input:
  "(collect (sort_key fst eml_files) = Inr [] \<longrightarrow>
      main True eml_files a = Inr (Exit ''No PDF attachments found.'')) \<and>
   ((\<forall>e \<in> set eml_files. \<forall>q \<in> set (snd e). \<not> (is_pdf_part q \<and> payload q \<noteq> None)) \<longrightarrow>
      main True eml_files a = Inr (Exit ''No PDF attachments found.'')) \<and>
   (\<forall>rows. main True eml_files a = Inr (Wrote rows) \<longrightarrow>
      (\<exists>records. collect (sort_key fst eml_files) = Inr records \<and> records \<noteq> []
                 \<and> rows = write_munis_csv (dedup records) a))"
proof (intro conjI impI allI)
  assume "collect (sort_key fst eml_files) = Inr []"
  then show "main True eml_files a = Inr (Exit ''No PDF attachments found.'')"
    by (simp add: main_def)
next
  assume h: "\<forall>e \<in> set eml_files. \<forall>q \<in> set (snd e). \<not> (is_pdf_part q \<and> payload q \<noteq> None)"
  have "collect (sort_key fst eml_files) = Inr []"
    by (rule collect_empty) (use h in simp)
  then show "main True eml_files a = Inr (Exit ''No PDF attachments found.'')"
    by (simp add: main_def)
next
  fix rows
  assume "main True eml_files a = Inr (Wrote rows)"
  then show "\<exists>records. collect (sort_key fst eml_files) = Inr records \<and> records \<noteq> []
                 \<and> rows = write_munis_csv (dedup records) a"
    by (auto simp: main_def split: sum.splits if_splits)
qed

theorem main_no_input_witness:
  "main True
     [(''inbox/mail.eml'',
       [\<lparr>content_type = ''text/plain'', filename = Some ''note.txt'', payload = None\<rparr>])]
     \<lparr>folder = ''.'', output_file = ''munis_import.csv'', default_org = ''o'',
      default_object = ''b'', remit_number = ''0'', invoice_date = ''d1'',
      invoice_due_date = ''d2'', po_fiscal_year = ''y'', po_number = ''p'',
      include_documentation = ''i'', separate_check = ''s'', contract_number = ''c'',
      invoice_description = ''desc'', project = ''pr'', po_line_number = ''l'',
      sequence_start = ''1'', detail_description = ''dd''\<rparr>
   = Inr (Exit ''No PDF attachments found.'')"
proof -
  let ?es = "[(''inbox/mail.eml'',
               [\<lparr>content_type = ''text/plain'', filename = Some ''note.txt'',
                 payload = None :: signals option\<rparr>])]"
  let ?a = "\<lparr>folder = ''.'', output_file = ''munis_import.csv'', default_org = ''o'',
      default_object = ''b'', remit_number = ''0'', invoice_date = ''d1'',
      invoice_due_date = ''d2'', po_fiscal_year = ''y'', po_number = ''p'',
      include_documentation = ''i'', separate_check = ''s'', contract_number = ''c'',
      invoice_description = ''desc'', project = ''pr'', po_line_number = ''l'',
      sequence_start = ''1'', detail_description = ''dd''\<rparr>"
  have h: "\<forall>e \<in> set ?es. \<forall>q \<in> set (snd e). \<not> (is_pdf_part q \<and> payload q \<noteq> None)"
    by simp
  from main_no_input[of ?es ?a] h
  show ?thesis by blast
qed

section \<open>Properties of the amount pattern\<close>

lemma rmatch_Rep_elem:
  assumes "(e, g') \<in> set (rmatch s (Rep m n P) (i, g))"
  shows "g' = g \<and> i + m \<le> e \<and> e - i \<le> length (takeWhile P (drop i s)) \<and>
         (\<forall>b. n = Some b \<longrightarrow> e - i \<le> b)"
  using assms by (auto simp: Let_def split: option.splits)

lemma take_takeWhile_all:
  assumes "k \<le> length (takeWhile P xs)"
  shows "list_all P (take k xs) \<and> length (take k xs) = k"
proof -
  have "take k xs = take k (takeWhile P xs)"
    using assms
    by (metis append_eq_conv_conj length_take min.absorb2 take_add take_all takeWhile_dropWhile_id
        append_take_drop_id le_refl take_append diff_is_0_eq' take_0 append_Nil2)
  moreover have "list_all P (takeWhile P xs)"
    by (simp add: list_all_iff) (meson set_takeWhileD)
  ultimately show ?thesis
    using assms by (auto simp: list_all_iff dest: in_set_takeD)
qed

lemma rmatch_cell_elem:
  assumes "(e, g') \<in> set (rmatch s cell_re (i, g))"
  shows "g' = g \<and> i < e \<and>
         (\<exists>a b. take (e - i) (drop i s) = a @ CHR ''.'' # b \<and> a \<noteq> [] \<and>
                list_all (\<lambda>c. is_digit c \<or> c = CHR '','') a \<and>
                length b = 2 \<and> list_all is_digit b)"
proof -
  let ?Q = "\<lambda>c. is_digit c \<or> c = CHR '',''"
  from assms obtain j where
    j: "(j, g) \<in> set (rmatch s (Rep 1 None ?Q) (i, g))"
    and dot: "j < length s" "s ! j = CHR ''.''"
    and d: "(e, g') \<in> set (rmatch s (Rep 2 (Some 2) is_digit) (Suc j, g))"
    by (auto simp: cell_re_def lit_def Let_def split: if_splits)
  from rmatch_Rep_elem[OF j] have j1: "i + 1 \<le> j" "j - i \<le> length (takeWhile ?Q (drop i s))"
    by auto
  from rmatch_Rep_elem[OF d] have d1: "g' = g" "Suc j + 2 \<le> e" "e - Suc j \<le> 2"
    "e - Suc j \<le> length (takeWhile is_digit (drop (Suc j) s))"
    by auto
  then have e: "e = j + 3" by arith
  from take_takeWhile_all[OF j1(2)]
  have a: "list_all ?Q (take (j - i) (drop i s))" "length (take (j - i) (drop i s)) = j - i"
    by auto
  from take_takeWhile_all[OF d1(4)] e
  have b: "list_all is_digit (take 2 (drop (Suc j) s))" "length (take 2 (drop (Suc j) s)) = 2"
    by auto
  have split: "take (e - i) (drop i s) =
               take (j - i) (drop i s) @ CHR ''.'' # take 2 (drop (Suc j) s)"
  proof -
    have "e - i = (j - i) + 3" using e j1 by arith
    then have "take (e - i) (drop i s) = take (j - i) (drop i s) @ take 3 (drop (j - i) (drop i s))"
      by (simp add: take_add)
    moreover have "drop (j - i) (drop i s) = drop j s" using j1 by simp
    moreover have "drop j s = s ! j # drop (Suc j) s" using dot Cons_nth_drop_Suc[of j s] by simp
    ultimately show ?thesis using dot by (simp add: numeral_3_eq_3 numeral_2_eq_2)
  qed
  from a j1 have ne: "take (j - i) (drop i s) \<noteq> []" by auto
  from d1 e j1 split a b ne show ?thesis
    by (intro conjI exI[of _ "take (j - i) (drop i s)"] exI[of _ "take 2 (drop (Suc j) s)"]) auto
qed

lemma rmatch_amt_elem:
  assumes "st \<in> set (rmatch s amt_re (i, None))"
  shows "\<exists>a b. match_text s (i, st) = a @ CHR ''.'' # b \<and> a \<noteq> [] \<and>
                list_all (\<lambda>c. is_digit c \<or> c = CHR '','') a \<and>
                length b = 2 \<and> list_all is_digit b"
proof -
  have fold: "Seq (Rep 1 None (\<lambda>c. is_digit c \<or> c = CHR '',''))
                  (Seq (lit ''.'') (Rep 2 (Some 2) is_digit)) = cell_re"
    by (simp add: cell_re_def)
  from assms obtain j g e g' where
    st: "st = (e, Some (j, e))" and c: "(e, g') \<in> set (rmatch s cell_re (j, g))"
    unfolding amt_re_def fold
    by (auto simp del: rmatch.simps(5) simp add: rmatch.simps(1-4,6-8) split: if_splits)
  from rmatch_cell_elem[OF c] st show ?thesis by simp
qed

lemma amount_shape_parses:
  assumes "m = a @ CHR ''.'' # b" "list_all (\<lambda>c. is_digit c \<or> c = CHR '','') a"
    "length b = 2" "list_all is_digit b"
  shows "\<exists>x. float_of_decimal (strip_commas m) = Some x"
proof -
  let ?a = "filter (\<lambda>c. c \<noteq> CHR '','') a"
  have nd: "\<not> is_digit CHR ''.''" "\<not> is_digit CHR '',''" by (simp_all add: is_digit_def)
  have da: "list_all is_digit ?a" using assms(2) by (auto simp: list_all_iff)
  have fb: "filter (\<lambda>c. c \<noteq> CHR '','') b = b"
    using assms(4) nd by (auto simp: list_all_iff intro!: filter_True)
  have sc: "strip_commas m = ?a @ CHR ''.'' # b"
    by (simp add: strip_commas_def assms(1) fb)
  have nodot: "\<forall>c \<in> set ?a. c \<noteq> CHR ''.''" using da nd by (auto simp: list_all_iff)
  have ip: "takeWhile (\<lambda>c. c \<noteq> CHR ''.'') (?a @ CHR ''.'' # b) = ?a"
    by (subst takeWhile_append2) (use nodot in auto)
  have fp: "dropWhile (\<lambda>c. c \<noteq> CHR ''.'') (?a @ CHR ''.'' # b) = CHR ''.'' # b"
    by (subst dropWhile_append2) (use nodot in auto)
  have "b \<noteq> []" using assms(3) by auto
  with da assms(4) show ?thesis
    unfolding sc float_of_decimal_def ip fp by (simp add: Let_def)
qed

lemma findall_amt_elem:
  "m \<in> set (findall_from amt_re s i cs skip) \<Longrightarrow>
   \<exists>a b. m = a @ CHR ''.'' # b \<and> a \<noteq> [] \<and>
          list_all (\<lambda>c. is_digit c \<or> c = CHR '','') a \<and>
          length b = 2 \<and> list_all is_digit b"
proof (induction cs arbitrary: i skip)
  case Nil
  show ?case
  proof (cases "rmatch s amt_re (i, None)")
    case Nil
    with Nil.prems show ?thesis by (simp split: if_splits)
  next
    case (Cons st sts)
    then have "st \<in> set (rmatch s amt_re (i, None))" by simp
    from rmatch_amt_elem[OF this] Cons Nil.prems show ?thesis
      by (auto simp del: match_text.simps split: if_splits)
  qed
next
  case (Cons c cs)
  note oprems = Cons.prems and oIH = Cons.IH
  show ?case
  proof (cases "i < skip")
    case True
    with oprems oIH show ?thesis by simp
  next
    case False
    show ?thesis
    proof (cases "rmatch s amt_re (i, None)")
      case Nil
      with False oprems oIH show ?thesis by simp
    next
      case (Cons st sts)
      then have "st \<in> set (rmatch s amt_re (i, None))" by simp
      from rmatch_amt_elem[OF this] Cons False oprems oIH show ?thesis
        by (auto simp del: match_text.simps)
    qed
  qed
qed

lemma those_map_Some:
  "\<forall>m \<in> set xs. \<exists>x. f m = Some x \<Longrightarrow> \<exists>ys. those (map f xs) = Some ys"
  by (induction xs) (auto split: option.splits)

lemma amounts_parse: "\<exists>nums. text_amounts text = Inr nums"
proof -
  have "\<forall>m \<in> set (re_findall amt_re text). \<exists>x. float_of_decimal (strip_commas m) = Some x"
    using findall_amt_elem amount_shape_parses unfolding re_findall_def by blast
  then have "\<exists>nums. those (map (\<lambda>a. float_of_decimal (strip_commas a)) (re_findall amt_re text))
               = Some nums"
    by (rule those_map_Some)
  then show ?thesis by (auto simp: text_amounts_def)
qed

lemma extract_financial_details_total:
  "\<exists>d. extract_financial_details text pdf dj = Inr d"
  using amounts_parse[of "text"]
  by (auto simp: extract_financial_details_def text_total_def text_net_def
      split: sum.splits list.splits)

section \<open>Properties of the float model\<close>

declare bitlen.simps [simp del] show_nat.simps [simp del]

lemma bitlen_numeral [simp]:
  "bitlen 0 = 0" "bitlen (numeral k) = Suc (bitlen (numeral k div 2))"
  by (simp_all add: bitlen.simps[of "numeral k"] bitlen.simps[of 0])

lemma bitlen_1 [simp]: "bitlen (Suc 0) = Suc 0" "bitlen 1 = Suc 0"
  by (simp_all add: bitlen.simps[of 1] bitlen.simps[of "Suc 0"] bitlen.simps[of 0])

lemma show_nat_numeral [simp]:
  "show_nat (numeral k) =
     (if (numeral k :: nat) < 10 then [digit_char (numeral k)]
      else show_nat (numeral k div 10) @ [digit_char (numeral k)])"
  "show_nat 0 = [digit_char 0]"
  by (simp_all add: show_nat.simps[of "numeral k"] show_nat.simps[of 0])

lemma digit_char_is_digit: "is_digit (digit_char d)"
proof -
  have "d mod 10 < length ''0123456789''" by simp
  then have "''0123456789'' ! (d mod 10) \<in> set ''0123456789''" by (rule nth_mem)
  then show ?thesis unfolding is_digit_def digit_char_def .
qed

lemma show_nat_digits: "show_nat n \<noteq> [] \<and> list_all is_digit (show_nat n)"
proof (induction n rule: show_nat.induct)
  case (1 n)
  show ?case
  proof (cases "n < 10")
    case True
    then show ?thesis by (simp add: show_nat.simps[of n] digit_char_is_digit)
  next
    case False
    with 1 show ?thesis by (simp add: show_nat.simps[of n] digit_char_is_digit)
  qed
qed

lemma fmt2_two_decimal: "two_decimal (fmt2 x) \<or> fmt2 x = ''inf''"
proof (cases x)
  case (Fin k)
  then show ?thesis
    using show_nat_digits[of "round_half_even (k * 100) (2 ^ 1074) div 100"]
    by (simp add: two_decimal_def Let_def digit_char_is_digit)
next
  case PInf
  then show ?thesis by simp
qed

lemma text_amounts_length:
  "text_amounts text = Inr nums \<Longrightarrow>
   map Some nums = map (\<lambda>a. float_of_decimal (strip_commas a)) (re_findall amt_re text)"
proof -
  have "\<And>ys. those xs = Some ys \<Longrightarrow> map Some ys = xs" for xs :: "pyfloat option list"
    by (induction xs) (auto split: option.splits)
  then show "text_amounts text = Inr nums \<Longrightarrow> ?thesis"
    by (auto simp: text_amounts_def split: option.splits)
qed

lemma foldl_max_Max: "foldl max x xs = Max (set (x # xs))"
  for x :: "'a :: linorder"
proof -
  have "foldl max x xs = fold max xs x"
    by (simp add: foldl_conv_fold max.commute)
  then show ?thesis by (simp only: Max.set_eq_fold)
qed

lemma sorted_Max_last: "sorted ys \<Longrightarrow> ys \<noteq> [] \<Longrightarrow> Max (set ys) = last ys"
  for ys :: "'a :: linorder list"
proof (induction ys)
  case Nil
  then show ?case by simp
next
  case (Cons y ys)
  show ?case
  proof (cases "ys = []")
    case True
    then show ?thesis by simp
  next
    case False
    with Cons have "Max (set ys) = last ys" by simp
    moreover from Cons.prems False have "y \<le> last ys" by auto
    ultimately show ?thesis using False by (simp add: max_def)
  qed
qed

lemma second_largest:
  fixes nums :: "'a :: linorder list"
  assumes "2 \<le> length nums"
  shows "rev (sort nums) ! 1 = Max (set (remove1 (Max (set nums)) nums))"
proof -
  let ?ys = "sort nums"
  let ?m = "Max (set nums)"
  have len: "length ?ys = length nums" by simp
  have ne: "?ys \<noteq> []"
  proof
    assume "?ys = []"
    then have "length ?ys = 0" by (simp only: list.size)
    with assms len show False by simp
  qed
  have m: "last ?ys = ?m" using sorted_Max_last[of ?ys] ne by simp
  from ne m obtain bs where ys: "?ys = bs @ [?m]" by (metis append_butlast_last_id)
  have bne: "bs \<noteq> []"
  proof
    assume "bs = []"
    with ys have "length ?ys = 1" by simp
    with assms len show False by simp
  qed
  have "mset (remove1 ?m nums) = mset nums - {#?m#}" by simp
  also have "mset nums = mset ?ys" by simp
  also have "\<dots> = mset bs + {#?m#}" by (simp only: ys mset_append mset.simps)
  finally have "mset (remove1 ?m nums) = mset bs" by simp
  then have s: "set (remove1 ?m nums) = set bs" by (rule mset_eq_setD)
  have "sorted ?ys" by simp
  then have "sorted bs" unfolding ys by (simp add: sorted_append)
  then have "Max (set bs) = last bs" using bne by (rule sorted_Max_last)
  moreover have "rev ?ys ! 1 = last bs"
  proof -
    have "rev ?ys = ?m # rev bs" by (simp only: ys rev_append rev.simps append.simps)
    then have "rev ?ys ! 1 = rev bs ! 0" by (simp only: nth_Cons_Suc One_nat_def)
    also have "\<dots> = last bs" using bne by (simp add: rev_nth last_conv_nth)
    finally show ?thesis .
  qed
  ultimately show ?thesis using s by (simp only:)
qed

lemma float_500: "float_of_decimal ''500.00'' = Some (Fin (500 * 2 ^ 1074))"
  by (simp add: float_of_decimal_def nat_of_digits_def digit_val_def is_digit_def
      double_of_frac_def round_half_even_def Let_def)

lemma float_450: "float_of_decimal ''450.00'' = Some (Fin (450 * 2 ^ 1074))"
  by (simp add: float_of_decimal_def nat_of_digits_def digit_val_def is_digit_def
      double_of_frac_def round_half_even_def Let_def)

lemma fmt2_500: "fmt2 (Fin (500 * 2 ^ 1074)) = ''500.00''"
  by (simp add: round_half_even_def Let_def digit_char_def)

lemma fmt2_450: "fmt2 (Fin (450 * 2 ^ 1074)) = ''450.00''"
  by (simp add: round_half_even_def Let_def digit_char_def)

lemma example_findall:
  "re_findall amt_re ''Total $500.00 Net $450.00'' = [''500.00'', ''450.00'']"
  by code_simp

section \<open>Properties of the financial details resolver\<close>

lemma json_details_keys:
  "json_details dj ''invoice_total'' = get_truthy dj ''invoice_total''"
  "json_details dj ''invoice_net_amount'' = get_truthy dj ''invoice_net_amount''"
  by (simp_all add: json_details_def Let_def get_truthy_def split: option.splits)

lemma text_total_keys:
  assumes "text_amounts text = Inr nums"
  shows "\<exists>d. text_total text details = Inr d \<and>
             d ''invoice_net_amount'' = details ''invoice_net_amount'' \<and>
             d ''invoice_total'' =
               (case details ''invoice_total'' of
                  Some v \<Rightarrow> Some v
                | None \<Rightarrow> (case nums of [] \<Rightarrow> None | x # xs \<Rightarrow> Some (fmt2 (Max (set nums)))))"
  using assms by (auto simp: text_total_def foldl_max_Max split: list.splits option.splits)

lemma text_net_keys:
  assumes "text_amounts text = Inr nums"
  shows "\<exists>d. text_net text details = Inr d \<and>
             d ''invoice_total'' = details ''invoice_total'' \<and>
             d ''invoice_net_amount'' =
               (case details ''invoice_net_amount'' of
                  Some v \<Rightarrow> Some v
                | None \<Rightarrow>
                    if 1 < length nums then Some (fmt2 (rev (sort nums) ! 1))
                    else (case nums of [] \<Rightarrow> None | x # xs \<Rightarrow> Some (fmt2 x)))"
  using assms by (auto simp: text_net_def split: list.splits option.splits)

lemma table_fallback_keys:
  "table_fallback pdf details ''invoice_net_amount'' = details ''invoice_net_amount''"
  "table_fallback pdf details ''invoice_total'' =
     (case details ''invoice_total'' of Some v \<Rightarrow> Some v | None \<Rightarrow> table_total pdf)"
  by (auto simp: table_fallback_def split: option.splits)

text \<open>The result of the resolver, field by field.\<close>

lemma financial_details_fields:
  assumes "text_amounts text = Inr nums"
  shows "\<exists>d. extract_financial_details text pdf dj = Inr d \<and>
             d ''invoice_total'' =
               (case get_truthy dj ''invoice_total'' of
                  Some v \<Rightarrow> Some v
                | None \<Rightarrow> (case nums of [] \<Rightarrow> table_total pdf
                                       | x # xs \<Rightarrow> Some (fmt2 (Max (set nums))))) \<and>
             d ''invoice_net_amount'' =
               (case get_truthy dj ''invoice_net_amount'' of
                  Some v \<Rightarrow> Some v
                | None \<Rightarrow>
                    if 1 < length nums then Some (fmt2 (rev (sort nums) ! 1))
                    else (case nums of [] \<Rightarrow> None | x # xs \<Rightarrow> Some (fmt2 x)))"
proof -
  from text_total_keys[OF assms, of "json_details dj"] obtain d1 where
    d1: "text_total text (json_details dj) = Inr d1"
    "d1 ''invoice_net_amount'' = json_details dj ''invoice_net_amount''"
    "d1 ''invoice_total'' =
       (case json_details dj ''invoice_total'' of
          Some v \<Rightarrow> Some v
        | None \<Rightarrow> (case nums of [] \<Rightarrow> None | x # xs \<Rightarrow> Some (fmt2 (Max (set nums)))))"
    by blast
  from text_net_keys[OF assms, of d1] obtain d2 where
    d2: "text_net text d1 = Inr d2"
    "d2 ''invoice_total'' = d1 ''invoice_total''"
    "d2 ''invoice_net_amount'' =
       (case d1 ''invoice_net_amount'' of
          Some v \<Rightarrow> Some v
        | None \<Rightarrow>
            if 1 < length nums then Some (fmt2 (rev (sort nums) ! 1))
            else (case nums of [] \<Rightarrow> None | x # xs \<Rightarrow> Some (fmt2 x)))"
    by blast
  have e: "extract_financial_details text pdf dj = Inr (table_fallback pdf d2)"
    by (simp add: extract_financial_details_def d1(1) d2(1))
  show ?thesis
    unfolding e
    by (intro exI[of _ "table_fallback pdf d2"] conjI refl)
       (simp_all add: table_fallback_keys d2 d1(2,3) json_details_keys
          split: option.splits list.splits)
qed

lemma amounts_nonempty:
  "text_amounts text = Inr nums \<Longrightarrow> (nums = []) = (re_findall amt_re text = [])"
  using text_amounts_length[of "text" nums] by (metis map_is_Nil_conv)

text \<open>
  Claim C5, as amended.  The resolver never raises: for every text, every list of pages
  and every dictionary of structured fields it returns a dictionary.  A structured field
  that is present and non-empty is returned as it is, whatever it holds.  A field that the
  text scan resolves (the structured field is missing or empty and the text has at least
  one amount) is a fixed two-decimal string, digits, a dot and two digits, or the string
  \<open>inf\<close> when the amount is too large for a float.  Without structured field and without
  amount in the text, the net amount stays unresolved and the total is whatever the table
  fallback delivers.
\<close>

theorem financial_details_format:
  "\<exists>d. extract_financial_details text pdf dj = Inr d \<and>
       (\<forall>jt. get_truthy dj ''invoice_total'' = Some jt \<longrightarrow> d ''invoice_total'' = Some jt) \<and>
       (\<forall>jn. get_truthy dj ''invoice_net_amount'' = Some jn \<longrightarrow>
             d ''invoice_net_amount'' = Some jn) \<and>
       (get_truthy dj ''invoice_total'' = None \<and> re_findall amt_re text \<noteq> [] \<longrightarrow>
          (\<exists>v. d ''invoice_total'' = Some v \<and> (two_decimal v \<or> v = ''inf''))) \<and>
       (get_truthy dj ''invoice_net_amount'' = None \<and> re_findall amt_re text \<noteq> [] \<longrightarrow>
          (\<exists>v. d ''invoice_net_amount'' = Some v \<and> (two_decimal v \<or> v = ''inf''))) \<and>
       (get_truthy dj ''invoice_net_amount'' = None \<and> re_findall amt_re text = [] \<longrightarrow>
          d ''invoice_net_amount'' = None) \<and>
       (get_truthy dj ''invoice_total'' = None \<and> re_findall amt_re text = [] \<longrightarrow>
          d ''invoice_total'' = table_total pdf)"
proof -
  from amounts_parse obtain nums where n: "text_amounts text = Inr nums" by blast
  from financial_details_fields[OF n, of pdf dj] obtain d where
    d: "extract_financial_details text pdf dj = Inr d"
    and t: "d ''invoice_total'' =
               (case get_truthy dj ''invoice_total'' of
                  Some v \<Rightarrow> Some v
                | None \<Rightarrow> (case nums of [] \<Rightarrow> table_total pdf
                                       | x # xs \<Rightarrow> Some (fmt2 (Max (set nums)))))"
    and nt: "d ''invoice_net_amount'' =
               (case get_truthy dj ''invoice_net_amount'' of
                  Some v \<Rightarrow> Some v
                | None \<Rightarrow>
                    if 1 < length nums then Some (fmt2 (rev (sort nums) ! 1))
                    else (case nums of [] \<Rightarrow> None | x # xs \<Rightarrow> Some (fmt2 x)))"
    by blast
  note ne = amounts_nonempty[OF n]
  have 1: "\<forall>jt. get_truthy dj ''invoice_total'' = Some jt \<longrightarrow> d ''invoice_total'' = Some jt"
    by (simp add: t)
  have 2: "\<forall>jn. get_truthy dj ''invoice_net_amount'' = Some jn \<longrightarrow>
             d ''invoice_net_amount'' = Some jn"
    by (simp add: nt)
  have 3: "get_truthy dj ''invoice_total'' = None \<and> re_findall amt_re text \<noteq> [] \<longrightarrow>
          (\<exists>v. d ''invoice_total'' = Some v \<and> (two_decimal v \<or> v = ''inf''))"
    using ne fmt2_two_decimal[of "Max (set nums)"] by (auto simp: t split: list.splits)
  have 4: "get_truthy dj ''invoice_net_amount'' = None \<and> re_findall amt_re text \<noteq> [] \<longrightarrow>
          (\<exists>v. d ''invoice_net_amount'' = Some v \<and> (two_decimal v \<or> v = ''inf''))"
    using ne fmt2_two_decimal[of "rev (sort nums) ! 1"] fmt2_two_decimal[of "hd nums"]
    by (auto simp: nt split: list.splits)
  have 5: "get_truthy dj ''invoice_net_amount'' = None \<and> re_findall amt_re text = [] \<longrightarrow>
          d ''invoice_net_amount'' = None"
    using ne by (auto simp: nt)
  have 6: "get_truthy dj ''invoice_total'' = None \<and> re_findall amt_re text = [] \<longrightarrow>
          d ''invoice_total'' = table_total pdf"
    using ne by (auto simp: t)
  from d 1 2 3 4 5 6 show ?thesis by blast
qed

theorem financial_details_format_witness:
  "\<exists>d v. extract_financial_details ''Total $500.00 Net $450.00'' [] Map.empty = Inr d \<and>
          d ''invoice_total'' = Some v \<and> (two_decimal v \<or> v = ''inf'')"
proof -
  have g: "get_truthy Map.empty ''invoice_total'' = None" by (simp add: get_truthy_def)
  have f: "re_findall amt_re ''Total $500.00 Net $450.00'' \<noteq> []"
    by (simp add: example_findall)
  from financial_details_format[of "''Total $500.00 Net $450.00''" "[]" Map.empty] g f
  show ?thesis by blast
qed

text \<open>
  Claim C5 as stated fails for the structured fields and for the table fallback: the
  structured values \<open>abc\<close> and \<open>1e3\<close> are returned unchanged, and the table cell
  \<open>12.345\<close>, which begins with a decimal amount, is returned whole.  None of them is a
  fixed two-decimal string.
\<close>

theorem financial_details_verbatim_counterexample:
  "extract_financial_details [] [] [''invoice_total'' \<mapsto> ''abc'', ''invoice_net_amount'' \<mapsto> ''1e3'']
     = Inr [''invoice_total'' \<mapsto> ''abc'', ''invoice_net_amount'' \<mapsto> ''1e3''] \<and>
   \<not> two_decimal ''abc'' \<and> \<not> two_decimal ''1e3'' \<and>
   (\<exists>d. extract_financial_details [] [[[[Some ''12.345'']]]] Map.empty = Inr d \<and>
        d ''invoice_total'' = Some ''12.345'') \<and>
   \<not> two_decimal ''12.345''"
proof -
  have a: "re_findall amt_re [] = []" by code_simp
  then have ta: "text_amounts [] = Inr []" by (simp add: text_amounts_def)
  have 1: "extract_financial_details [] []
             [''invoice_total'' \<mapsto> ''abc'', ''invoice_net_amount'' \<mapsto> ''1e3'']
           = Inr [''invoice_total'' \<mapsto> ''abc'', ''invoice_net_amount'' \<mapsto> ''1e3'']"
    by (simp add: extract_financial_details_def json_details_def get_truthy_def Let_def
        text_total_def text_net_def table_fallback_def)
  have m: "re_match cell_re ''12.345''" by code_simp
  have 2: "extract_financial_details [] [[[[Some ''12.345'']]]] Map.empty
           = Inr [''invoice_total'' \<mapsto> strip_commas ''12.345'']"
    by (simp add: extract_financial_details_def json_details_def get_truthy_def Let_def
        text_total_def text_net_def table_fallback_def ta m)
  have 3: "\<not> two_decimal ''abc''" "\<not> two_decimal ''1e3''" "\<not> two_decimal ''12.345''"
    by (simp_all add: two_decimal_def is_digit_def)
  from 1 2 3 show ?thesis by (simp add: strip_commas_def)
qed

text \<open>
  Claim C3.  The amounts \<open>nums\<close> are the currency-marked two-decimal amounts of the
  text, converted to floats, in document order.  When the structured model does not supply
  the total and there is an amount, the total is the largest amount.  When it does not
  supply the net amount, the net amount is, with two amounts or more, the largest of the
  amounts that remain when one occurrence of the largest is taken away (the second
  largest by position), and with exactly one amount that amount, which then is the value
  of both fields.  In particular, when the amounts of the text are \<open>500.00\<close> and
  \<open>450.00\<close>, in either order, and there are no structured signals, the total is
  \<open>500.00\<close> and the net amount \<open>450.00\<close>.
\<close>

theorem text_scan_total_and_net:
  "\<exists>nums d.
     map Some nums = map (\<lambda>a. float_of_decimal (strip_commas a)) (re_findall amt_re text) \<and>
     extract_financial_details text pdf dj = Inr d \<and>
     (get_truthy dj ''invoice_total'' = None \<and> nums \<noteq> [] \<longrightarrow>
        d ''invoice_total'' = Some (fmt2 (Max (set nums)))) \<and>
     (get_truthy dj ''invoice_net_amount'' = None \<and> 2 \<le> length nums \<longrightarrow>
        d ''invoice_net_amount'' =
          Some (fmt2 (Max (set (remove1 (Max (set nums)) nums))))) \<and>
     (get_truthy dj ''invoice_net_amount'' = None \<and> length nums = 1 \<longrightarrow>
        d ''invoice_net_amount'' = Some (fmt2 (nums ! 0))) \<and>
     (get_truthy dj ''invoice_total'' = None \<and> get_truthy dj ''invoice_net_amount'' = None \<and>
      length nums = 1 \<longrightarrow>
        d ''invoice_total'' = Some (fmt2 (nums ! 0)) \<and>
        d ''invoice_net_amount'' = d ''invoice_total'') \<and>
     (get_truthy dj ''invoice_total'' = None \<and> get_truthy dj ''invoice_net_amount'' = None \<and>
      (re_findall amt_re text = [''500.00'', ''450.00''] \<or>
       re_findall amt_re text = [''450.00'', ''500.00'']) \<longrightarrow>
        d ''invoice_total'' = Some ''500.00'' \<and> d ''invoice_net_amount'' = Some ''450.00'')"
proof -
  from amounts_parse obtain nums where n: "text_amounts text = Inr nums" by blast
  note m = text_amounts_length[OF n]
  from financial_details_fields[OF n, of pdf dj] obtain d where
    d: "extract_financial_details text pdf dj = Inr d"
    and t: "d ''invoice_total'' =
               (case get_truthy dj ''invoice_total'' of
                  Some v \<Rightarrow> Some v
                | None \<Rightarrow> (case nums of [] \<Rightarrow> table_total pdf
                                       | x # xs \<Rightarrow> Some (fmt2 (Max (set nums)))))"
    and nt: "d ''invoice_net_amount'' =
               (case get_truthy dj ''invoice_net_amount'' of
                  Some v \<Rightarrow> Some v
                | None \<Rightarrow>
                    if 1 < length nums then Some (fmt2 (rev (sort nums) ! 1))
                    else (case nums of [] \<Rightarrow> None | x # xs \<Rightarrow> Some (fmt2 x)))"
    by blast
  have 1: "get_truthy dj ''invoice_total'' = None \<and> nums \<noteq> [] \<longrightarrow>
        d ''invoice_total'' = Some (fmt2 (Max (set nums)))"
    by (auto simp: t split: list.splits)
  have 2: "get_truthy dj ''invoice_net_amount'' = None \<and> 2 \<le> length nums \<longrightarrow>
        d ''invoice_net_amount'' =
          Some (fmt2 (Max (set (remove1 (Max (set nums)) nums))))"
    using second_largest[of nums] by (auto simp: nt)
  have 3: "get_truthy dj ''invoice_net_amount'' = None \<and> length nums = 1 \<longrightarrow>
        d ''invoice_net_amount'' = Some (fmt2 (nums ! 0))"
    by (cases nums) (auto simp: nt)
  have 4: "get_truthy dj ''invoice_total'' = None \<and> get_truthy dj ''invoice_net_amount'' = None \<and>
      length nums = 1 \<longrightarrow>
        d ''invoice_total'' = Some (fmt2 (nums ! 0)) \<and>
        d ''invoice_net_amount'' = d ''invoice_total''"
    by (cases nums) (auto simp: nt t)
  have 5: "get_truthy dj ''invoice_total'' = None \<and> get_truthy dj ''invoice_net_amount'' = None \<and>
      (re_findall amt_re text = [''500.00'', ''450.00''] \<or>
       re_findall amt_re text = [''450.00'', ''500.00'']) \<longrightarrow>
        d ''invoice_total'' = Some ''500.00'' \<and> d ''invoice_net_amount'' = Some ''450.00''"
  proof (intro impI, elim conjE)
    assume g: "get_truthy dj ''invoice_total'' = None" "get_truthy dj ''invoice_net_amount'' = None"
    assume "re_findall amt_re text = [''500.00'', ''450.00''] \<or>
            re_findall amt_re text = [''450.00'', ''500.00'']"
    with m have "nums = [Fin (500 * 2 ^ 1074), Fin (450 * 2 ^ 1074)] \<or>
                 nums = [Fin (450 * 2 ^ 1074), Fin (500 * 2 ^ 1074)]"
      by (auto simp: strip_commas_def float_500 float_450 map_eq_Cons_conv)
    then show "d ''invoice_total'' = Some ''500.00'' \<and> d ''invoice_net_amount'' = Some ''450.00''"
    proof
      assume e: "nums = [Fin (500 * 2 ^ 1074), Fin (450 * 2 ^ 1074)]"
      have "Max (set nums) = Fin (500 * 2 ^ 1074)" unfolding e by (simp add: max_def)
      moreover have "rev (sort nums) ! 1 = Fin (450 * 2 ^ 1074)"
        unfolding e by (simp add: insort_key.simps)
      moreover have ne: "nums \<noteq> []" "1 < length nums" unfolding e by simp_all
      moreover have "d ''invoice_total'' = Some (fmt2 (Max (set nums)))"
        using g ne by (cases nums) (simp_all add: t del: fmt2.simps)
      moreover have "d ''invoice_net_amount'' = Some (fmt2 (rev (sort nums) ! 1))"
        using g ne by (simp add: nt del: fmt2.simps)
      ultimately show ?thesis by (simp only: fmt2_500 fmt2_450)
    next
      assume e: "nums = [Fin (450 * 2 ^ 1074), Fin (500 * 2 ^ 1074)]"
      have "Max (set nums) = Fin (500 * 2 ^ 1074)" unfolding e by (simp add: max_def)
      moreover have "rev (sort nums) ! 1 = Fin (450 * 2 ^ 1074)"
        unfolding e by (simp add: insort_key.simps)
      moreover have ne: "nums \<noteq> []" "1 < length nums" unfolding e by simp_all
      moreover have "d ''invoice_total'' = Some (fmt2 (Max (set nums)))"
        using g ne by (cases nums) (simp_all add: t del: fmt2.simps)
      moreover have "d ''invoice_net_amount'' = Some (fmt2 (rev (sort nums) ! 1))"
        using g ne by (simp add: nt del: fmt2.simps)
      ultimately show ?thesis by (simp only: fmt2_500 fmt2_450)
    qed
  qed
  from m d 1 2 3 4 5 show ?thesis by blast
qed

theorem text_scan_total_and_net_witness:
  "\<exists>d. extract_financial_details ''Total $500.00 Net $450.00'' [] Map.empty = Inr d \<and>
       d ''invoice_total'' = Some ''500.00'' \<and> d ''invoice_net_amount'' = Some ''450.00''"
proof -
  have g: "get_truthy Map.empty ''invoice_total'' = None"
    "get_truthy Map.empty ''invoice_net_amount'' = None"
    by (simp_all add: get_truthy_def)
  from text_scan_total_and_net[of "''Total $500.00 Net $450.00''" "[]" Map.empty] g example_findall
  show ?thesis by blast
qed

section \<open>Properties of the table fallback\<close>

lemma financial_details_before_tables:
  assumes "text_amounts text = Inr nums"
  shows "\<exists>d2. (\<forall>pdf. extract_financial_details text pdf dj = Inr (table_fallback pdf d2)) \<and>
              d2 ''invoice_total'' =
                (case get_truthy dj ''invoice_total'' of
                   Some v \<Rightarrow> Some v
                 | None \<Rightarrow> (case nums of [] \<Rightarrow> None | x # xs \<Rightarrow> Some (fmt2 (Max (set nums)))))"
proof -
  from text_total_keys[OF assms, of "json_details dj"] obtain d1 where
    d1: "text_total text (json_details dj) = Inr d1"
    "d1 ''invoice_total'' =
       (case json_details dj ''invoice_total'' of
          Some v \<Rightarrow> Some v
        | None \<Rightarrow> (case nums of [] \<Rightarrow> None | x # xs \<Rightarrow> Some (fmt2 (Max (set nums)))))"
    by blast
  from text_net_keys[OF assms, of d1] obtain d2 where
    d2: "text_net text d1 = Inr d2" "d2 ''invoice_total'' = d1 ''invoice_total''"
    by blast
  have "\<forall>pdf. extract_financial_details text pdf dj = Inr (table_fallback pdf d2)"
    by (simp add: extract_financial_details_def d1(1) d2(1))
  moreover have "d2 ''invoice_total'' =
                (case get_truthy dj ''invoice_total'' of
                   Some v \<Rightarrow> Some v
                 | None \<Rightarrow> (case nums of [] \<Rightarrow> None | x # xs \<Rightarrow> Some (fmt2 (Max (set nums)))))"
    by (simp add: d2(2) d1(2) json_details_keys)
  ultimately show ?thesis by blast
qed

lemma table_total_cell:
  "table_total pdf = Some v \<Longrightarrow>
   \<exists>p cell. p \<in> set pdf \<and> p \<noteq> [] \<and> hd p \<noteq> [] \<and> last (hd p) \<noteq> [] \<and>
            last (last (hd p)) = Some cell \<and> re_match cell_re cell \<and> v = strip_commas cell"
proof (induction pdf)
  case Nil
  then show ?case by simp
next
  case (Cons p ps)
  show ?case
  proof (cases "table_total ps = Some v")
    case True
    from Cons.IH[OF this] show ?thesis by auto
  next
    case False
    with Cons.prems show ?thesis
      by (auto split: list.splits option.splits if_splits)
  qed
qed

lemma re_match_cell_prefix:
  assumes "re_match cell_re cell"
  shows "\<exists>a b rest. cell = a @ CHR ''.'' # b @ rest \<and> a \<noteq> [] \<and>
                     list_all (\<lambda>c. is_digit c \<or> c = CHR '','') a \<and>
                     length b = 2 \<and> list_all is_digit b"
proof -
  from assms obtain e g where "(e, g) \<in> set (rmatch cell cell_re (0, None))"
    unfolding re_match_def by (cases "rmatch cell cell_re (0, None)") auto
  from rmatch_cell_elem[OF this] obtain a b where
    ab: "take e cell = a @ CHR ''.'' # b" "a \<noteq> []"
    "list_all (\<lambda>c. is_digit c \<or> c = CHR '','') a" "length b = 2" "list_all is_digit b"
    by auto
  have "cell = take e cell @ drop e cell" by simp
  then have "cell = a @ CHR ''.'' # b @ drop e cell" unfolding ab(1) by simp
  with ab show ?thesis by blast
qed

text \<open>
  Claim C4, as amended.  \<open>d\<close> is the result for the document, \<open>d0\<close> the result for
  the same text and structured fields without any page.  The net amount is never taken
  from the tables.  When the total is resolved without tables, the tables change
  nothing; it is unresolved without tables exactly when the structured total is missing
  or empty and the text has no amount, and then the total is what the loop over the pages
  delivers.  That loop skips a page without tables; on a page with tables it looks at the
  bottom-right cell of the first table of that page and takes it, commas removed, when
  it is not empty and begins with a decimal amount; when the cell is empty, missing or
  does not begin with a decimal amount, the loop goes on to the next page, so that a
  later page can still supply the total; a first table without rows or with an empty
  last row ends the fallback without a value.  A value taken from the tables is always
  such a cell of the first table of some page, it begins with digits or commas, a dot
  and two digits, and may continue with any characters.
\<close>

theorem table_fallback_total_only:
  "\<exists>d d0.
     extract_financial_details text pdf dj = Inr d \<and>
     extract_financial_details text [] dj = Inr d0 \<and>
     d ''invoice_net_amount'' = d0 ''invoice_net_amount'' \<and>
     (d0 ''invoice_total'' \<noteq> None \<longrightarrow> d = d0) \<and>
     (d0 ''invoice_total'' = None) =
        (get_truthy dj ''invoice_total'' = None \<and> re_findall amt_re text = []) \<and>
     (d0 ''invoice_total'' = None \<longrightarrow> d ''invoice_total'' = table_total pdf) \<and>
     (\<forall>ps. pdf = [] # ps \<longrightarrow> table_total pdf = table_total ps) \<and>
     (\<forall>t ts ps cell.
        pdf = (t # ts) # ps \<and> t \<noteq> [] \<and> last t \<noteq> [] \<and> last (last t) = Some cell \<longrightarrow>
        table_total pdf =
          (if cell \<noteq> [] \<and> re_match cell_re cell then Some (strip_commas cell)
           else table_total ps)) \<and>
     (\<forall>t ts ps.
        pdf = (t # ts) # ps \<and> t \<noteq> [] \<and> last t \<noteq> [] \<and> last (last t) = None \<longrightarrow>
        table_total pdf = table_total ps) \<and>
     (\<forall>t ts ps. pdf = (t # ts) # ps \<and> (t = [] \<or> last t = []) \<longrightarrow> table_total pdf = None) \<and>
     (\<forall>v. table_total pdf = Some v \<longrightarrow>
        (\<exists>p cell a b rest.
           p \<in> set pdf \<and> p \<noteq> [] \<and> hd p \<noteq> [] \<and> last (hd p) \<noteq> [] \<and>
           last (last (hd p)) = Some cell \<and> v = strip_commas cell \<and>
           cell = a @ CHR ''.'' # b @ rest \<and> a \<noteq> [] \<and>
           list_all (\<lambda>c. is_digit c \<or> c = CHR '','') a \<and> length b = 2 \<and> list_all is_digit b))"
proof -
  from amounts_parse obtain nums where n: "text_amounts text = Inr nums" by blast
  from financial_details_before_tables[OF n, of dj] obtain d2 where
    e: "\<And>pdf. extract_financial_details text pdf dj = Inr (table_fallback pdf d2)"
    and t: "d2 ''invoice_total'' =
                (case get_truthy dj ''invoice_total'' of
                   Some v \<Rightarrow> Some v
                 | None \<Rightarrow> (case nums of [] \<Rightarrow> None | x # xs \<Rightarrow> Some (fmt2 (Max (set nums)))))"
    by blast
  have d0: "table_fallback [] d2 = d2" by (simp add: table_fallback_def)
  have 1: "table_fallback pdf d2 ''invoice_net_amount'' = d2 ''invoice_net_amount''"
    by (simp add: table_fallback_keys)
  have 2: "d2 ''invoice_total'' \<noteq> None \<longrightarrow> table_fallback pdf d2 = d2"
    by (simp add: table_fallback_def)
  have 3: "(d2 ''invoice_total'' = None) =
        (get_truthy dj ''invoice_total'' = None \<and> re_findall amt_re text = [])"
    using amounts_nonempty[OF n] by (auto simp: t split: option.splits list.splits)
  have 4: "d2 ''invoice_total'' = None \<longrightarrow> table_fallback pdf d2 ''invoice_total'' = table_total pdf"
    by (simp add: table_fallback_keys)
  have 5: "\<forall>ps. pdf = [] # ps \<longrightarrow> table_total pdf = table_total ps" by simp
  have 6: "\<forall>t ts ps cell.
        pdf = (t # ts) # ps \<and> t \<noteq> [] \<and> last t \<noteq> [] \<and> last (last t) = Some cell \<longrightarrow>
        table_total pdf =
          (if cell \<noteq> [] \<and> re_match cell_re cell then Some (strip_commas cell)
           else table_total ps)" by simp
  have 7: "\<forall>t ts ps.
        pdf = (t # ts) # ps \<and> t \<noteq> [] \<and> last t \<noteq> [] \<and> last (last t) = None \<longrightarrow>
        table_total pdf = table_total ps" by simp
  have 8: "\<forall>t ts ps. pdf = (t # ts) # ps \<and> (t = [] \<or> last t = []) \<longrightarrow> table_total pdf = None"
    by auto
  have 9: "\<forall>v. table_total pdf = Some v \<longrightarrow>
        (\<exists>p cell a b rest.
           p \<in> set pdf \<and> p \<noteq> [] \<and> hd p \<noteq> [] \<and> last (hd p) \<noteq> [] \<and>
           last (last (hd p)) = Some cell \<and> v = strip_commas cell \<and>
           cell = a @ CHR ''.'' # b @ rest \<and> a \<noteq> [] \<and>
           list_all (\<lambda>c. is_digit c \<or> c = CHR '','') a \<and> length b = 2 \<and> list_all is_digit b)"
  proof (intro allI impI)
    fix v assume "table_total pdf = Some v"
    from table_total_cell[OF this] obtain p cell where
      pc: "p \<in> set pdf" "p \<noteq> []" "hd p \<noteq> []" "last (hd p) \<noteq> []"
      "last (last (hd p)) = Some cell" "re_match cell_re cell" "v = strip_commas cell"
      by blast
    from re_match_cell_prefix[OF pc(6)] pc
    show "\<exists>p cell a b rest.
           p \<in> set pdf \<and> p \<noteq> [] \<and> hd p \<noteq> [] \<and> last (hd p) \<noteq> [] \<and>
           last (last (hd p)) = Some cell \<and> v = strip_commas cell \<and>
           cell = a @ CHR ''.'' # b @ rest \<and> a \<noteq> [] \<and>
           list_all (\<lambda>c. is_digit c \<or> c = CHR '','') a \<and> length b = 2 \<and> list_all is_digit b"
      by blast
  qed
  show ?thesis
    apply (rule exI[of _ "table_fallback pdf d2"])
    apply (rule exI[of _ d2])
    using e[of pdf] e[of "[]"] d0 1 2 3 4 5 6 7 8 9
    apply (intro conjI)
              apply (simp_all only:)
    done
qed

lemma empty_findall: "re_findall amt_re [] = []"
  by code_simp

theorem table_fallback_total_only_witness:
  "\<exists>d. extract_financial_details [] [[[[Some ''1,212.00'']]]] Map.empty = Inr d \<and>
       d ''invoice_total'' = Some ''1212.00'' \<and> d ''invoice_net_amount'' = None"
proof -
  have g: "get_truthy Map.empty ''invoice_total'' = None" by (simp add: get_truthy_def)
  have m: "re_match cell_re ''1,212.00''" by code_simp
  have s: "strip_commas ''1,212.00'' = ''1212.00''" by (simp add: strip_commas_def)
  have n: "\<exists>d0. extract_financial_details [] [] Map.empty = Inr d0 \<and>
                d0 ''invoice_net_amount'' = None"
    using financial_details_fields[of "[]" "[]" "[]" Map.empty]
    by (auto simp: text_amounts_def empty_findall get_truthy_def)
  from table_fallback_total_only[of "[]" "[[[[Some ''1,212.00'']]]]" Map.empty] g m s n
    empty_findall
  show ?thesis by (auto simp: )
qed

text \<open>
  Claim C4 as stated fails: when the bottom-right cell of the first table found does not
  match, the total can still gain a value from the tables.  Here the only table of the
  first page ends in the cell \<open>x\<close>, and the total is taken from the table of the second
  page.
\<close>

theorem table_fallback_later_page_counterexample:
  "\<not> re_match cell_re ''x'' \<and>
   (\<exists>d. extract_financial_details [] [[[[Some ''x'']]], [[[Some ''1,212.00'']]]] Map.empty = Inr d \<and>
        d ''invoice_total'' = Some ''1212.00'')"
proof -
  have ta: "text_amounts [] = Inr []" by (simp add: text_amounts_def empty_findall)
  have m: "re_match cell_re ''1,212.00''" by code_simp
  have x: "\<not> re_match cell_re ''x''" by code_simp
  have "extract_financial_details [] [[[[Some ''x'']]], [[[Some ''1,212.00'']]]] Map.empty
           = Inr [''invoice_total'' \<mapsto> strip_commas ''1,212.00'']"
    by (simp add: extract_financial_details_def json_details_def get_truthy_def Let_def
        text_total_def text_net_def table_fallback_def ta m x)
  with x show ?thesis by (simp add: strip_commas_def)
qed

section \<open>Properties of the record assembly\<close>

lemma assemble_total:
  "\<exists>r. assemble eml_path sg = Inr r \<and>
       vendor_number r = extract_vendor_number (extracted_text sg) eml_path (donut_json sg) \<and>
       invoice_number r = extract_invoice_number (extracted_text sg) eml_path (donut_json sg)"
  using extract_financial_details_total[of "extracted_text sg" "tables sg" "donut_json sg"]
  by (auto simp: assemble_def)

lemma pdf_payloads_Cons:
  "pdf_payloads (p # ps) =
     (if is_pdf_part p then (case payload p of None \<Rightarrow> pdf_payloads ps
                                             | Some sg \<Rightarrow> sg # pdf_payloads ps)
      else pdf_payloads ps)"
  by (simp add: pdf_payloads_def map_filter_simps split: option.splits)

lemma extract_records_payloads:
  "\<exists>rs. extract_records_from_eml eml_path parts = Inr rs \<and>
        length rs = length (pdf_payloads parts) \<and>
        (\<forall>i < length rs. assemble eml_path (pdf_payloads parts ! i) = Inr (rs ! i))"
proof (induction parts)
  case Nil
  then show ?case by (simp add: pdf_payloads_def map_filter_simps)
next
  case (Cons p ps)
  from Cons obtain rs where
    rs: "extract_records_from_eml eml_path ps = Inr rs" "length rs = length (pdf_payloads ps)"
    "\<forall>i < length rs. assemble eml_path (pdf_payloads ps ! i) = Inr (rs ! i)"
    by blast
  show ?case
  proof (cases "is_pdf_part p")
    case False
    with rs show ?thesis by (simp add: pdf_payloads_Cons)
  next
    case True
    show ?thesis
    proof (cases "payload p")
      case None
      with True rs show ?thesis by (simp add: pdf_payloads_Cons)
    next
      case (Some sg)
      from assemble_total[of eml_path sg] obtain r where r: "assemble eml_path sg = Inr r"
        by blast
      have "\<forall>i < length (r # rs). assemble eml_path ((sg # pdf_payloads ps) ! i) = Inr ((r # rs) ! i)"
        using r rs(3) by (auto simp: nth_Cons split: nat.splits)
      with True Some r rs(1,2) show ?thesis
        by (simp add: pdf_payloads_Cons)
    qed
  qed
qed

lemma dedup_loop_keyset:
  "business_key ` set (dedup_loop rs seen acc) \<union> seen =
   business_key ` set rs \<union> business_key ` set acc \<union> seen"
proof (induction rs arbitrary: seen acc)
  case Nil
  then show ?case by simp
next
  case (Cons r rs)
  show ?case
  proof (cases "business_key r \<in> seen")
    case True
    have "business_key ` set (dedup_loop (r # rs) seen acc) \<union> seen =
          business_key ` set (dedup_loop rs seen acc) \<union> seen"
      using True by (simp add: Let_def)
    also have "\<dots> = business_key ` set rs \<union> business_key ` set acc \<union> seen"
      by (rule Cons.IH)
    also have "\<dots> = business_key ` set (r # rs) \<union> business_key ` set acc \<union> seen"
      using True by auto
    finally show ?thesis .
  next
    case False
    let ?k = "business_key r"
    have i: "business_key ` set (dedup_loop rs (insert ?k seen) (acc @ [r])) \<union> insert ?k seen =
          business_key ` set rs \<union> business_key ` set (acc @ [r]) \<union> insert ?k seen"
      by (rule Cons.IH)
    have s: "\<exists>ys. dedup_loop rs (insert ?k seen) (acc @ [r]) = (acc @ [r]) @ ys"
      using dedup_loop_subseq[of rs "insert ?k seen" "acc @ [r]"] by blast
    then have "?k \<in> business_key ` set (dedup_loop rs (insert ?k seen) (acc @ [r]))"
      by auto
    then have "business_key ` set (dedup_loop rs (insert ?k seen) (acc @ [r])) \<union> seen =
          business_key ` set (dedup_loop rs (insert ?k seen) (acc @ [r])) \<union> insert ?k seen"
      by blast
    also note i
    also have "business_key ` set rs \<union> business_key ` set (acc @ [r]) \<union> insert ?k seen =
          business_key ` set (r # rs) \<union> business_key ` set acc \<union> seen"
      by auto
    finally show ?thesis using False by (simp add: Let_def)
  qed
qed

lemma distinct_filter_one:
  "distinct (map f xs) \<Longrightarrow> k \<in> f ` set xs \<Longrightarrow> length (filter (\<lambda>r. f r = k) xs) = 1"
proof (induction xs)
  case Nil
  then show ?case by simp
next
  case (Cons x xs)
  show ?case
  proof (cases "f x = k")
    case True
    from Cons.prems(1) have "f x \<notin> f ` set xs" by simp
    with True have "\<forall>r \<in> set xs. f r \<noteq> k" by blast
    then have "filter (\<lambda>r. f r = k) xs = []"
      by (simp add: filter_empty_conv)
    with True show ?thesis by simp
  next
    case False
    with Cons show ?thesis by auto
  qed
qed

lemma dedup_one_per_key:
  assumes "r \<in> set records" "vendor_number r = v" "invoice_number r = n"
  shows "length (filter (\<lambda>r. vendor_number r = v \<and> invoice_number r = n) (dedup records)) = 1"
proof -
  have d: "distinct (map business_key (dedup records))"
    unfolding dedup_def by (rule dedup_loop_keys) simp_all
  have "business_key ` set (dedup records) = business_key ` set records"
    using dedup_loop_keyset[of records "{}" "[]"] by (simp add: dedup_def)
  with assms have "(v, n) \<in> business_key ` set (dedup records)"
    by (force simp: business_key_def)
  from distinct_filter_one[OF d this] show ?thesis
    by (simp add: business_key_def)
qed

text \<open>
  Claim C10.  Reading a message always succeeds and gives one record for each PDF
  attachment with a payload, in order.  The vendor and invoice number of the record are
  what the two resolvers return when their \<open>source_file\<close> argument is the path of the
  \<open>.eml\<close> file: the name of the attachment plays no part.  So when both resolvers
  reach their last step on an attachment, both numbers of its record are the base name
  of the \<open>.eml\<close> file without its extension; any two such attachments of the message
  have the same vendor number and the same invoice number; and whatever records come
  before and after those of the message, the deduplicated list holds exactly one record
  with that pair of numbers as soon as one attachment of the message falls through.
\<close>

theorem filename_fallback_is_eml_name:
  "\<exists>rs. extract_records_from_eml eml_path parts = Inr rs \<and>
        length rs = length (pdf_payloads parts) \<and>
        (\<forall>i < length rs.
           vendor_number (rs ! i) =
             extract_vendor_number (extracted_text (pdf_payloads parts ! i)) eml_path
               (donut_json (pdf_payloads parts ! i)) \<and>
           invoice_number (rs ! i) =
             extract_invoice_number (extracted_text (pdf_payloads parts ! i)) eml_path
               (donut_json (pdf_payloads parts ! i))) \<and>
        (\<forall>i < length rs.
           falls_through (pdf_payloads parts ! i) \<longrightarrow>
           vendor_number (rs ! i) = splitext_root (basename eml_path) \<and>
           invoice_number (rs ! i) = splitext_root (basename eml_path)) \<and>
        (\<forall>i < length rs. \<forall>j < length rs.
           falls_through (pdf_payloads parts ! i) \<and> falls_through (pdf_payloads parts ! j) \<longrightarrow>
           vendor_number (rs ! i) = vendor_number (rs ! j) \<and>
           invoice_number (rs ! i) = invoice_number (rs ! j)) \<and>
        (\<forall>before after.
           (\<exists>i < length rs. falls_through (pdf_payloads parts ! i)) \<longrightarrow>
           length (filter (\<lambda>r. vendor_number r = splitext_root (basename eml_path) \<and>
                               invoice_number r = splitext_root (basename eml_path))
                     (dedup (before @ rs @ after))) = 1)"
proof -
  let ?pp = "pdf_payloads parts"
  let ?fb = "splitext_root (basename eml_path)"
  from extract_records_payloads[of eml_path parts] obtain rs where
    rs: "extract_records_from_eml eml_path parts = Inr rs" "length rs = length ?pp"
    and a: "\<forall>i < length rs. assemble eml_path (?pp ! i) = Inr (rs ! i)"
    by blast
  have 1: "\<forall>i < length rs.
           vendor_number (rs ! i) =
             extract_vendor_number (extracted_text (?pp ! i)) eml_path (donut_json (?pp ! i)) \<and>
           invoice_number (rs ! i) =
             extract_invoice_number (extracted_text (?pp ! i)) eml_path (donut_json (?pp ! i))"
  proof (intro allI impI)
    fix i assume "i < length rs"
    with a have "assemble eml_path (?pp ! i) = Inr (rs ! i)" by blast
    with assemble_total[of eml_path "?pp ! i"]
    show "vendor_number (rs ! i) =
             extract_vendor_number (extracted_text (?pp ! i)) eml_path (donut_json (?pp ! i)) \<and>
           invoice_number (rs ! i) =
             extract_invoice_number (extracted_text (?pp ! i)) eml_path (donut_json (?pp ! i))"
      by auto
  qed
  have 2: "\<forall>i < length rs. falls_through (?pp ! i) \<longrightarrow>
           vendor_number (rs ! i) = ?fb \<and> invoice_number (rs ! i) = ?fb"
    using 1 by (simp add: falls_through_def extract_vendor_number_def extract_invoice_number_def)
  have 3: "\<forall>i < length rs. \<forall>j < length rs.
           falls_through (?pp ! i) \<and> falls_through (?pp ! j) \<longrightarrow>
           vendor_number (rs ! i) = vendor_number (rs ! j) \<and>
           invoice_number (rs ! i) = invoice_number (rs ! j)"
    using 2 by simp
  have 4: "\<forall>before after.
           (\<exists>i < length rs. falls_through (?pp ! i)) \<longrightarrow>
           length (filter (\<lambda>r. vendor_number r = ?fb \<and> invoice_number r = ?fb)
                     (dedup (before @ rs @ after))) = 1"
  proof (intro allI impI)
    fix before after :: "invoice_record list"
    assume "\<exists>i < length rs. falls_through (?pp ! i)"
    then obtain i where i: "i < length rs" "falls_through (?pp ! i)" by blast
    with 2 have k: "vendor_number (rs ! i) = ?fb" "invoice_number (rs ! i) = ?fb" by auto
    from i have "rs ! i \<in> set (before @ rs @ after)" by simp
    from dedup_one_per_key[OF this k]
    show "length (filter (\<lambda>r. vendor_number r = ?fb \<and> invoice_number r = ?fb)
                     (dedup (before @ rs @ after))) = 1" .
  qed
  from rs 1 2 3 4 show ?thesis by blast
qed

lemma empty_falls_through:
  "falls_through \<lparr>extracted_text = [], donut_json = Map.empty, tables = []\<rparr>"
proof -
  have "re_search vendor_label_re [] = None" by code_simp
  moreover have "re_findall eight_digit_re [] = []" by code_simp
  moreover have "re_search invoice_label_re [] = None" by code_simp
  moreover have "re_search date_token_re [] = None" by code_simp
  moreover have "re_findall structural_re [] = []" by code_simp
  ultimately show ?thesis
    by (simp add: falls_through_def get_truthy_def first_truthy_def map_filter_simps)
qed

lemma example_base: "splitext_root (basename ''inbox/mail.eml'') = ''mail''"
  by code_simp

theorem filename_fallback_is_eml_name_witness:
  "\<exists>rs. extract_records_from_eml ''inbox/mail.eml''
          [\<lparr>content_type = ''application/pdf'', filename = Some ''a.pdf'',
            payload = Some \<lparr>extracted_text = [], donut_json = Map.empty, tables = []\<rparr>\<rparr>,
           \<lparr>content_type = ''application/octet-stream'', filename = Some ''B.PDF'',
            payload = Some \<lparr>extracted_text = [], donut_json = Map.empty, tables = []\<rparr>\<rparr>]
          = Inr rs \<and>
        length rs = 2 \<and>
        vendor_number (rs ! 0) = ''mail'' \<and> invoice_number (rs ! 0) = ''mail'' \<and>
        vendor_number (rs ! 1) = ''mail'' \<and> invoice_number (rs ! 1) = ''mail'' \<and>
        length (filter (\<lambda>r. vendor_number r = ''mail'' \<and> invoice_number r = ''mail'')
                  (dedup rs)) = 1"
proof -
  let ?sg = "\<lparr>extracted_text = [], donut_json = Map.empty, tables = []\<rparr>"
  let ?parts = "[\<lparr>content_type = ''application/pdf'', filename = Some ''a.pdf'',
                  payload = Some ?sg\<rparr>,
                 \<lparr>content_type = ''application/octet-stream'', filename = Some ''B.PDF'',
                  payload = Some ?sg\<rparr>]"
  have s: "suffix ''.pdf'' [lower_char CHR ''B'', lower_char CHR ''.'', lower_char CHR ''P'',
                           lower_char CHR ''D'', lower_char CHR ''F'']"
    by code_simp
  have e: "pdf_payloads [] = []" by (simp add: pdf_payloads_def map_filter_simps)
  have pp: "pdf_payloads ?parts = [?sg, ?sg]"
    by (simp add: pdf_payloads_Cons is_pdf_part_def s e)
  from filename_fallback_is_eml_name[of "''inbox/mail.eml''" ?parts] obtain rs where
    rs: "extract_records_from_eml ''inbox/mail.eml'' ?parts = Inr rs"
    "length rs = length (pdf_payloads ?parts)"
    and f: "\<forall>i < length rs. falls_through (pdf_payloads ?parts ! i) \<longrightarrow>
           vendor_number (rs ! i) = splitext_root (basename ''inbox/mail.eml'') \<and>
           invoice_number (rs ! i) = splitext_root (basename ''inbox/mail.eml'')"
    and d: "\<forall>before after.
           (\<exists>i < length rs. falls_through (pdf_payloads ?parts ! i)) \<longrightarrow>
           length (filter (\<lambda>r. vendor_number r = splitext_root (basename ''inbox/mail.eml'') \<and>
                               invoice_number r = splitext_root (basename ''inbox/mail.eml''))
                     (dedup (before @ rs @ after))) = 1"
    by blast
  from rs(2) have len: "length rs = 2" by (simp add: pp)
  have ft: "\<forall>i < length rs. falls_through (pdf_payloads ?parts ! i)"
    unfolding pp len using empty_falls_through by (auto simp: nth_Cons split: nat.splits)
  from f ft len have k: "vendor_number (rs ! 0) = ''mail''" "invoice_number (rs ! 0) = ''mail''"
    "vendor_number (rs ! 1) = ''mail''" "invoice_number (rs ! 1) = ''mail''"
    by (simp_all add: example_base)
  from ft len have "0 < length rs \<and> falls_through (pdf_payloads ?parts ! 0)" by simp
  then have "\<exists>i < length rs. falls_through (pdf_payloads ?parts ! i)" by blast
  with d[rule_format, of "[]" "[]"] have
    "length (filter (\<lambda>r. vendor_number r = ''mail'' \<and> invoice_number r = ''mail'') (dedup rs)) = 1"
    by (simp add: example_base)
  with rs(1) len k show ?thesis by blast
qed

section \<open>Properties of the search functions\<close>


















section \<open>Properties of the vendor number resolver\<close>




section \<open>Properties of the invoice number resolver\<close>







end
